theory Spec2Isabelle
  imports Complex_Main "HOL-Library.Char_ord" "HOL-Library.List_Lexorder"
begin

section \<open>Values, errors and indexing\<close>

text \<open>
  The cells of a row are what the loader leaves in them (DecisionTree.py, lines 147-149
  and 234-236): every word that \<^verbatim>\<open>float()\<close> accepts has been replaced by its float, so a
  cell is a float or a string that \<^verbatim>\<open>float()\<close> rejects. \<open>Num\<close> carries the real
  number that the float denotes (a cell is a finite float: no NaN, no infinity); Python's \<^verbatim>\<open>1 == 1.0\<close>
  makes the integer literals \<^verbatim>\<open>0\<close> and \<^verbatim>\<open>1\<close> of the source the values \<open>Num 0\<close> and
  \<open>Num 1\<close>. \<open>Str\<close> carries the bytes of a word.
\<close>

datatype pyval = Num (num_of: real) | Str (str_of: string)

datatype error = IndexError | TypeError | AttributeError | ZeroDivisionError

type_synonym 'a result = "error + 'a"

type_synonym row = "pyval list"

type_synonym dataset = "row list"

text \<open>\<^verbatim>\<open>IsFloat\<close> (lines 97-102) on a cell: \<^verbatim>\<open>float(value)\<close> succeeds on a float only.\<close>

fun IsFloat :: "pyval \<Rightarrow> bool" where
  "IsFloat (Num x) = True"
| "IsFloat (Str s) = False"

text \<open>\<^verbatim>\<open>xs[i]\<close>: an index below zero counts from the end, one out of range raises.\<close>

definition py_index :: "'a list \<Rightarrow> int \<Rightarrow> 'a result" where
  "py_index xs i =
     (if 0 \<le> i \<and> i < int (length xs) then Inr (xs ! nat i)
      else if i < 0 \<and> - int (length xs) \<le> i then Inr (xs ! nat (int (length xs) + i))
      else Inl IndexError)"

text \<open>
  \<^verbatim>\<open>a <= b\<close>: two floats by value, two strings by code point, a float against a
  string raises \<^verbatim>\<open>TypeError\<close>.
\<close>

fun py_le :: "pyval \<Rightarrow> pyval \<Rightarrow> bool result" where
  "py_le (Num a) (Num b) = Inr (a \<le> b)"
| "py_le (Str a) (Str b) = Inr (a \<le> b)"
| "py_le (Num a) (Str b) = Inl TypeError"
| "py_le (Str a) (Num b) = Inl TypeError"

section \<open>Question\<close>

record Question =
  Attribute :: int
  Value :: pyval

text \<open>\<^verbatim>\<open>Question.Match\<close> (lines 28-33).\<close>

definition Match :: "Question \<Rightarrow> row \<Rightarrow> bool result" where
  "Match q aRow =
     (case py_index aRow (Attribute q) of
        Inl e \<Rightarrow> Inl e
      | Inr val \<Rightarrow> if IsFloat val then py_le val (Value q) else Inr (val = Value q))"

section \<open>DecisionNode and LeafNode\<close>

text \<open>
  A \<^verbatim>\<open>dict\<close> of label counts keeps its keys in insertion order; it is an association
  list with one pair per key.
\<close>

type_synonym counts = "(pyval \<times> nat) list"

text \<open>
  The final tree. \<open>LeafNode c d\<close> has the fields \<^verbatim>\<open>Counts\<close> and \<^verbatim>\<open>Depth\<close>;
  \<open>DecisionNode qs bs d\<close> has \<^verbatim>\<open>Questions\<close>, \<^verbatim>\<open>Branches\<close> and \<^verbatim>\<open>Depth\<close>.
\<close>

datatype node =
  LeafNode counts nat
| DecisionNode "Question list" "node list" nat

text \<open>
  The loop \<^verbatim>\<open>for i, question in enumerate(questions): if question.Match(row): ...\<close>
  (lines 54-55, 253-254, 259-260 and 361-362), up to the index of the first question
  that matches. \<open>i\<close> is the index of the head of the list.
\<close>

fun first_match :: "Question list \<Rightarrow> row \<Rightarrow> nat \<Rightarrow> nat option result" where
  "first_match [] aRow i = Inr None"
| "first_match (question # rest) aRow i =
     (case Match question aRow of
        Inl e \<Rightarrow> Inl e
      | Inr matches \<Rightarrow> if matches then Inr (Some i) else first_match rest aRow (Suc i))"

lemma py_index_in_set: "py_index xs i = Inr x \<Longrightarrow> x \<in> set xs"
  by (auto simp: py_index_def split: if_splits)

text \<open>\<^verbatim>\<open>DecisionNode.Decide\<close> (lines 53-57) and \<^verbatim>\<open>LeafNode.Decide\<close> (lines 83-84).\<close>

function Decide :: "node \<Rightarrow> row \<Rightarrow> counts result" where
  "Decide (LeafNode c d) aData = Inr c"
| "Decide (DecisionNode qs bs d) aData =
     (case first_match qs aData 0 of
        Inl e \<Rightarrow> Inl e
      | Inr (Some i) \<Rightarrow>
          (case py_index bs (int i) of Inl e \<Rightarrow> Inl e | Inr b \<Rightarrow> Decide b aData)
      | Inr None \<Rightarrow>
          (case py_index bs 0 of Inl e \<Rightarrow> Inl e | Inr b \<Rightarrow> Decide b aData))"
  by pat_completeness auto
termination
proof (relation "measure (\<lambda>(t, aData). size t)")
  show "wf (measure (\<lambda>(t, aData). size t))" by simp
next
  fix qs :: "Question list" and bs :: "node list" and d :: nat and aData :: row
    and i :: nat and b :: node
  assume "py_index bs (int i) = Inr b"
  then have "b \<in> set bs" by (rule py_index_in_set)
  then have "size b < Suc (size_list size bs)"
    by (induction bs) auto
  then show "((b, aData), (DecisionNode qs bs d, aData)) \<in> measure (\<lambda>(t, aData). size t)"
    by simp
next
  fix qs :: "Question list" and bs :: "node list" and d :: nat and aData :: row
    and b :: node
  assume "py_index bs 0 = Inr b"
  then have "b \<in> set bs" by (rule py_index_in_set)
  then have "size b < Suc (size_list size bs)"
    by (induction bs) auto
  then show "((b, aData), (DecisionNode qs bs d, aData)) \<in> measure (\<lambda>(t, aData). size t)"
    by simp
qed

text \<open>
  \<^verbatim>\<open>counts.setdefault(val, 0); counts[val] += 1\<close> (lines 77-78) and
  \<^verbatim>\<open>LeafNode.CalculateCounts\<close> (lines 73-80).
\<close>

fun setdefault :: "counts \<Rightarrow> pyval \<Rightarrow> nat \<Rightarrow> counts" where
  "setdefault [] k d = [(k, d)]"
| "setdefault ((k', n) # rest) k d =
     (if k' = k then (k', n) # rest else (k', n) # setdefault rest k d)"

fun increment :: "counts \<Rightarrow> pyval \<Rightarrow> counts" where
  "increment [] k = []"
| "increment ((k', n) # rest) k =
     (if k' = k then (k', n + 1) # rest else (k', n) # increment rest k)"

fun CalculateCounts_loop :: "counts \<Rightarrow> dataset \<Rightarrow> counts result" where
  "CalculateCounts_loop c [] = Inr c"
| "CalculateCounts_loop c (aRow # rest) =
     (case py_index aRow (int (length aRow) - 1) of
        Inl e \<Rightarrow> Inl e
      | Inr val \<Rightarrow> CalculateCounts_loop (increment (setdefault c val 0) val) rest)"

definition CalculateCounts :: "dataset \<Rightarrow> counts result" where
  "CalculateCounts aRowData = CalculateCounts_loop [] aRowData"

section \<open>Evaluation: the confusion cells and the metrics\<close>

text \<open>
  The local counters of \<^verbatim>\<open>DecisionTree.Decide\<close> (lines 160-166) and the \<^verbatim>\<open>Results\<close>
  object it returns (lines 104-115; its field \<^verbatim>\<open>Total\<close> is \<open>total\<close> here). The test rows
  are taken as the loader of lines 139-158 leaves them.
\<close>

record counters =
  total :: nat
  TP :: nat
  TN :: nat
  FP :: nat
  FN :: nat
  P :: nat
  N :: nat

record Results = counters +
  Accuracy :: real
  Precision :: real
  Recall :: real

definition keys :: "counts \<Rightarrow> pyval set" where
  "keys c = fst ` set c"

definition guessedTrue :: "counts \<Rightarrow> bool" where
  "guessedTrue c = (Str ''Yes'' \<in> keys c \<or> Num 1 \<in> keys c)"

definition guessedFalse :: "counts \<Rightarrow> bool" where
  "guessedFalse c = (Str ''No'' \<in> keys c \<or> Num 0 \<in> keys c)"

definition wasTrue :: "pyval \<Rightarrow> bool" where
  "wasTrue answer = (answer = Str ''Yes'' \<or> answer = Num 1)"

definition wasFalse :: "pyval \<Rightarrow> bool" where
  "wasFalse answer = (answer = Str ''No'' \<or> answer = Num 0)"

text \<open>Lines 178-186: the counters after one row, from the counts the tree returned.\<close>

definition tally :: "counts \<Rightarrow> pyval \<Rightarrow> counters \<Rightarrow> counters" where
  "tally c answer k =
     (let k1 = k\<lparr>total := total k + 1\<rparr>;
          k2 = (if wasTrue answer then k1\<lparr>P := P k1 + 1\<rparr> else k1\<lparr>N := N k1 + 1\<rparr>)
      in if guessedTrue c \<and> wasTrue answer then k2\<lparr>TP := TP k2 + 1\<rparr>
         else if guessedFalse c \<and> wasFalse answer then k2\<lparr>TN := TN k2 + 1\<rparr>
         else if guessedTrue c \<and> wasFalse answer then k2\<lparr>FP := FP k2 + 1\<rparr>
         else if guessedFalse c \<and> wasTrue answer then k2\<lparr>FN := FN k2 + 1\<rparr>
         else k2)"

text \<open>Lines 167-186: the loop over the test rows.\<close>

fun Decide_rows :: "node \<Rightarrow> counters \<Rightarrow> dataset \<Rightarrow> counters result" where
  "Decide_rows aRoot k [] = Inr k"
| "Decide_rows aRoot k (aRow # rest) =
     (case Decide aRoot aRow of
        Inl e \<Rightarrow> Inl e
      | Inr c \<Rightarrow>
          (case py_index aRow (int (length aRow) - 1) of
             Inl e \<Rightarrow> Inl e
           | Inr answer \<Rightarrow> Decide_rows aRoot (tally c answer k) rest))"

text \<open>\<^verbatim>\<open>a / b\<close> on numbers: a zero divisor raises.\<close>

definition truediv :: "real \<Rightarrow> real \<Rightarrow> real result" where
  "truediv a b = (if b = 0 then Inl ZeroDivisionError else Inr (a / b))"

text \<open>Lines 188-197 and 210: the metrics, from the final counters.\<close>

definition metrics :: "counters \<Rightarrow> Results result" where
  "metrics k =
     (case (if P k + N k \<noteq> 0
            then (case truediv (real (TP k + TN k)) (real (P k + N k)) of
                    Inl e \<Rightarrow> Inl e | Inr r \<Rightarrow> Inr (r * 100))
            else Inr (- 1)) of
        Inl e \<Rightarrow> Inl e
      | Inr accuracy \<Rightarrow>
     (case (if TP k + FP k \<noteq> 0
            then (case truediv (real (TP k)) (real (TP k + FP k)) of
                    Inl e \<Rightarrow> Inl e | Inr r \<Rightarrow> Inr (r * 100))
            else Inr (- 1)) of
        Inl e \<Rightarrow> Inl e
      | Inr precision \<Rightarrow>
     (case (if P k \<noteq> 0
            then (case truediv (real (TP k)) (real (P k)) of
                    Inl e \<Rightarrow> Inl e | Inr r \<Rightarrow> Inr (r * 100))
            else Inr (- 1)) of
        Inl e \<Rightarrow> Inl e
      | Inr recall \<Rightarrow>
          Inr \<lparr>total = total k, TP = TP k, TN = TN k, FP = FP k, FN = FN k,
               P = P k, N = N k,
               Accuracy = accuracy, Precision = precision, Recall = recall\<rparr>)))"

definition DecisionTree_Decide :: "node \<Rightarrow> dataset \<Rightarrow> Results result" where
  "DecisionTree_Decide aRoot testData =
     (case Decide_rows aRoot
             \<lparr>total = 0, TP = 0, TN = 0, FP = 0, FN = 0, P = 0, N = 0\<rparr> testData of
        Inl e \<Rightarrow> Inl e
      | Inr k \<Rightarrow> metrics k)"

section \<open>Candidate values\<close>

text \<open>
  An entry of \<^verbatim>\<open>possibleValues\<close>: \<^verbatim>\<open>None\<close>, a list or a set. A set is kept as the
  list of its elements without repetition, in the order of their insertion; Python
  leaves the order in which a set is iterated open, and this is the one fixed here.
\<close>

datatype container = NoneC | ListC "pyval list" | SetC "pyval list"

text \<open>\<^verbatim>\<open>len(c)\<close> and \<^verbatim>\<open>for x in c\<close>: both raise \<^verbatim>\<open>TypeError\<close> on \<^verbatim>\<open>None\<close>.\<close>

fun py_len :: "container \<Rightarrow> nat result" where
  "py_len NoneC = Inl TypeError"
| "py_len (ListC xs) = Inr (length xs)"
| "py_len (SetC xs) = Inr (length xs)"

fun py_iter :: "container \<Rightarrow> pyval list result" where
  "py_iter NoneC = Inl TypeError"
| "py_iter (ListC xs) = Inr xs"
| "py_iter (SetC xs) = Inr xs"

text \<open>
  \<^verbatim>\<open>if c == None: c = list()\<close> and \<^verbatim>\<open>if c == None: c = set()\<close> (lines 252, 258, 276,
  279); \<^verbatim>\<open>c.append(x)\<close> and \<^verbatim>\<open>c.add(x)\<close>, which a container of the other kind does
  not have.
\<close>

fun or_list :: "container \<Rightarrow> container" where
  "or_list NoneC = ListC []"
| "or_list c = c"

fun or_set :: "container \<Rightarrow> container" where
  "or_set NoneC = SetC []"
| "or_set c = c"

fun py_append :: "container \<Rightarrow> pyval \<Rightarrow> container result" where
  "py_append (ListC xs) x = Inr (ListC (xs @ [x]))"
| "py_append c x = Inl AttributeError"

fun py_add :: "container \<Rightarrow> pyval \<Rightarrow> container result" where
  "py_add (SetC xs) x = Inr (SetC (if x \<in> set xs then xs else xs @ [x]))"
| "py_add c x = Inl AttributeError"

text \<open>
  \<^verbatim>\<open>xs = list(set(xs)); xs.sort()\<close> (lines 266-267 and 289-290): the distinct elements
  in ascending order. Floats sort by value and strings by code point; a list that holds
  both raises \<^verbatim>\<open>TypeError\<close> at the first comparison across the kinds.
\<close>

definition sorted_unique :: "pyval list \<Rightarrow> pyval list result" where
  "sorted_unique xs =
     (let u = remdups xs
      in if list_all IsFloat u then Inr (sort_key num_of u)
         else if list_all (\<lambda>v. \<not> IsFloat v) u then Inr (sort_key str_of u)
         else Inl TypeError)"

text \<open>A loop body that may raise, run over a list from left to right.\<close>

fun map_result :: "('a \<Rightarrow> 'b result) \<Rightarrow> 'a list \<Rightarrow> 'b list result" where
  "map_result f [] = Inr []"
| "map_result f (x # xs) =
     (case f x of
        Inl e \<Rightarrow> Inl e
      | Inr y \<Rightarrow> (case map_result f xs of Inl e \<Rightarrow> Inl e | Inr ys \<Rightarrow> Inr (y # ys)))"

section \<open>The DecisionTree object\<close>

text \<open>
  The fields of \<^verbatim>\<open>DecisionTree\<close> (lines 119-133). \<^verbatim>\<open>ShouldPrintAll\<close> only switches the
  progress messages on, which are left out.
\<close>

record DecisionTree =
  TrainingData :: dataset
  Root :: "node option"
  AttributeNames :: "string list"
  Depth :: nat
  GlobalUniqueValues :: "container list"
  GlobalQuestions :: "Question list list"

subsection \<open>GetPossibleValues\<close>

text \<open>Lines 275-280: one word of a row, at column \<open>j\<close>.\<close>

definition GPV_word :: "container list \<Rightarrow> nat \<Rightarrow> pyval \<Rightarrow> container list result" where
  "GPV_word possibleValues j word =
     (case py_index possibleValues (int j) of
        Inl e \<Rightarrow> Inl e
      | Inr c \<Rightarrow>
          if IsFloat word
          then (case py_append (or_list c) word of
                  Inl e \<Rightarrow> Inl e | Inr c' \<Rightarrow> Inr (possibleValues[j := c']))
          else (case py_add (or_set c) word of
                  Inl e \<Rightarrow> Inl e | Inr c' \<Rightarrow> Inr (possibleValues[j := c'])))"

text \<open>Line 274: \<^verbatim>\<open>for j, word in enumerate(row)\<close>, from column \<open>j\<close> on.\<close>

fun GPV_row :: "container list \<Rightarrow> nat \<Rightarrow> row \<Rightarrow> container list result" where
  "GPV_row possibleValues j [] = Inr possibleValues"
| "GPV_row possibleValues j (word # rest) =
     (case GPV_word possibleValues j word of
        Inl e \<Rightarrow> Inl e
      | Inr pv \<Rightarrow> GPV_row pv (Suc j) rest)"

text \<open>Line 273: \<^verbatim>\<open>for row in aTrainingData\<close>.\<close>

fun GPV_rows :: "container list \<Rightarrow> dataset \<Rightarrow> container list result" where
  "GPV_rows possibleValues [] = Inr possibleValues"
| "GPV_rows possibleValues (aRow # rest) =
     (case GPV_row possibleValues 0 aRow of
        Inl e \<Rightarrow> Inl e
      | Inr pv \<Rightarrow> GPV_rows pv rest)"

text \<open>
  Lines 294-302: three or more sorted values are replaced by the three at the indices
  \<^verbatim>\<open>int(n / 3 * 1) - 1\<close>, \<^verbatim>\<open>int(n / 3 * 2) - 1\<close> and \<^verbatim>\<open>int(n / 3 * 3) - 1\<close>; the
  division is the real one and \<^verbatim>\<open>int\<close> of a number that is not negative is its floor.
\<close>

definition GPV_bucket :: "pyval list \<Rightarrow> pyval list result" where
  "GPV_bucket xs =
     (if length xs \<ge> 3
      then (let numPosVals = length xs
            in case py_index xs (\<lfloor>real numPosVals / 3 * 1\<rfloor> - 1) of
                 Inl e \<Rightarrow> Inl e
               | Inr a \<Rightarrow>
            (case py_index xs (\<lfloor>real numPosVals / 3 * 2\<rfloor> - 1) of
                 Inl e \<Rightarrow> Inl e
               | Inr b \<Rightarrow>
            (case py_index xs (\<lfloor>real numPosVals / 3 * 3\<rfloor> - 1) of
                 Inl e \<Rightarrow> Inl e
               | Inr c \<Rightarrow> Inr [a, b, c])))
      else Inr xs)"

text \<open>Lines 285-302: the body of the second loop, on one container.\<close>

fun GPV_finish :: "container \<Rightarrow> container result" where
  "GPV_finish (ListC xs) =
     (case sorted_unique xs of
        Inl e \<Rightarrow> Inl e
      | Inr s \<Rightarrow> (case GPV_bucket s of Inl e \<Rightarrow> Inl e | Inr b \<Rightarrow> Inr (ListC b)))"
| "GPV_finish c = Inr c"

definition GetPossibleValues :: "DecisionTree \<Rightarrow> dataset \<Rightarrow> container list result" where
  "GetPossibleValues self aTrainingData =
     (case GPV_rows (replicate (length (AttributeNames self)) NoneC) aTrainingData of
        Inl e \<Rightarrow> Inl e
      | Inr pv \<Rightarrow> map_result GPV_finish pv)"

subsection \<open>GetQuestions\<close>

text \<open>
  Lines 311-313: the questions of column \<open>i\<close>, one per value; the list of lists grows to
  \<open>i + 1\<close> entries before it is written.
\<close>

fun GQ_values :: "Question list list \<Rightarrow> nat \<Rightarrow> pyval list \<Rightarrow> Question list list" where
  "GQ_values gq i [] = gq"
| "GQ_values gq i (val # rest) =
     (let gq1 = gq @ replicate (Suc i - length gq) []
      in GQ_values (gq1[i := gq1 ! i @ [\<lparr>Attribute = int i, Value = val\<rparr>]]) i rest)"

fun GQ_loop :: "Question list list \<Rightarrow> nat \<Rightarrow> container list \<Rightarrow> Question list list result" where
  "GQ_loop gq i [] = Inr gq"
| "GQ_loop gq i (values # rest) =
     (case py_iter values of
        Inl e \<Rightarrow> Inl e
      | Inr vs \<Rightarrow> GQ_loop (GQ_values gq i vs) (Suc i) rest)"

definition GetQuestions :: "DecisionTree \<Rightarrow> DecisionTree result" where
  "GetQuestions self =
     (case GQ_loop (GlobalQuestions self) 0 (GlobalUniqueValues self) of
        Inl e \<Rightarrow> Inl e
      | Inr gq \<Rightarrow> Inr (self\<lparr>GlobalQuestions := gq\<rparr>))"

subsection \<open>GetChildPossibleValues\<close>

text \<open>Lines 251-262: one word of a row, at column \<open>i\<close>.\<close>

definition GCPV_word ::
  "DecisionTree \<Rightarrow> row \<Rightarrow> container list \<Rightarrow> nat \<Rightarrow> pyval \<Rightarrow> container list result" where
  "GCPV_word self aRow possibleValues i word =
     (case py_index possibleValues (int i) of
        Inl e \<Rightarrow> Inl e
      | Inr c \<Rightarrow>
     (case py_index (GlobalQuestions self) (int i) of
        Inl e \<Rightarrow> Inl e
      | Inr questions \<Rightarrow>
     (case first_match questions aRow 0 of
        Inl e \<Rightarrow> Inl e
      | Inr None \<Rightarrow>
          Inr (possibleValues[i := (if IsFloat word then or_list c else or_set c)])
      | Inr (Some k) \<Rightarrow>
          if IsFloat word
          then (case py_append (or_list c) (Value (questions ! k)) of
                  Inl e \<Rightarrow> Inl e | Inr c' \<Rightarrow> Inr (possibleValues[i := c']))
          else (case py_add (or_set c) (Value (questions ! k)) of
                  Inl e \<Rightarrow> Inl e | Inr c' \<Rightarrow> Inr (possibleValues[i := c'])))))"

fun GCPV_row ::
  "DecisionTree \<Rightarrow> row \<Rightarrow> container list \<Rightarrow> nat \<Rightarrow> row \<Rightarrow> container list result" where
  "GCPV_row self aRow possibleValues i [] = Inr possibleValues"
| "GCPV_row self aRow possibleValues i (word # rest) =
     (case GCPV_word self aRow possibleValues i word of
        Inl e \<Rightarrow> Inl e
      | Inr pv \<Rightarrow> GCPV_row self aRow pv (Suc i) rest)"

fun GCPV_rows :: "DecisionTree \<Rightarrow> container list \<Rightarrow> dataset \<Rightarrow> container list result" where
  "GCPV_rows self possibleValues [] = Inr possibleValues"
| "GCPV_rows self possibleValues (aRow # rest) =
     (case GCPV_row self aRow possibleValues 0 aRow of
        Inl e \<Rightarrow> Inl e
      | Inr pv \<Rightarrow> GCPV_rows self pv rest)"

text \<open>Lines 264-267.\<close>

fun GCPV_finish :: "container \<Rightarrow> container result" where
  "GCPV_finish (ListC xs) =
     (case sorted_unique xs of Inl e \<Rightarrow> Inl e | Inr s \<Rightarrow> Inr (ListC s))"
| "GCPV_finish c = Inr c"

definition GetChildPossibleValues :: "DecisionTree \<Rightarrow> dataset \<Rightarrow> container list result" where
  "GetChildPossibleValues self aDataSet =
     (case GCPV_rows self (replicate (length (AttributeNames self)) NoneC) aDataSet of
        Inl e \<Rightarrow> Inl e
      | Inr pv \<Rightarrow> map_result GCPV_finish pv)"

subsection \<open>CanSplit\<close>

text \<open>
  Line 384 calls \<^verbatim>\<open>IsFloat\<close> on an entry of \<^verbatim>\<open>globalUniqueValues\<close>, which is \<^verbatim>\<open>None\<close>, a
  list or a set: \<^verbatim>\<open>float()\<close> raises \<^verbatim>\<open>TypeError\<close> on each of them and \<^verbatim>\<open>IsFloat\<close>
  answers \<^verbatim>\<open>False\<close>.
\<close>

fun IsFloat_container :: "container \<Rightarrow> bool" where
  "IsFloat_container NoneC = False"
| "IsFloat_container (ListC xs) = False"
| "IsFloat_container (SetC xs) = False"

text \<open>
  Lines 387 and 390: \<^verbatim>\<open>Match\<close> of a question whose \<^verbatim>\<open>Value\<close> is a whole container. On a
  numeric cell \<^verbatim>\<open>val <= self.Value\<close> compares a float with a container and raises
  \<^verbatim>\<open>TypeError\<close>; on a string \<^verbatim>\<open>val == self.Value\<close> is \<^verbatim>\<open>False\<close>.
\<close>

definition Match_container :: "int \<Rightarrow> container \<Rightarrow> row \<Rightarrow> bool result" where
  "Match_container aAttributeIndex c aRow =
     (case py_index aRow aAttributeIndex of
        Inl e \<Rightarrow> Inl e
      | Inr val \<Rightarrow> if IsFloat val then Inl TypeError else Inr False)"

text \<open>
  Lines 388-398: the walk over the rows with the signed counter \<^verbatim>\<open>answerAbs\<close>;
  \<open>Inr True\<close> is the \<^verbatim>\<open>return True\<close> of lines 393-394, \<open>Inr False\<close> the end of the loop.
\<close>

fun CanSplit_walk :: "(row \<Rightarrow> bool result) \<Rightarrow> int \<Rightarrow> dataset \<Rightarrow> bool result" where
  "CanSplit_walk matchf answerAbs [] = Inr False"
| "CanSplit_walk matchf answerAbs (aRow # rest) =
     (case matchf aRow of
        Inl e \<Rightarrow> Inl e
      | Inr matches \<Rightarrow>
          if matches \<and> answerAbs < 0 then Inr True
          else if \<not> matches \<and> answerAbs > 0 then Inr True
          else CanSplit_walk matchf (if matches then answerAbs + 1 else answerAbs - 1) rest)"

text \<open>Lines 383-401: the loop over the attributes.\<close>

fun CanSplit_attributes ::
  "dataset \<Rightarrow> container list \<Rightarrow> container list \<Rightarrow> nat list \<Rightarrow> bool result" where
  "CanSplit_attributes aDataSet uniqueValues globalUniqueValues [] = Inr False"
| "CanSplit_attributes aDataSet uniqueValues globalUniqueValues (attribute # rest) =
     (case py_index globalUniqueValues (int attribute) of
        Inl e \<Rightarrow> Inl e
      | Inr g \<Rightarrow>
          if IsFloat_container g
          then (case CanSplit_walk (Match_container (int attribute) g) 0 aDataSet of
                  Inl e \<Rightarrow> Inl e
                | Inr flipped \<Rightarrow>
                    if flipped then Inr True
                    else CanSplit_attributes aDataSet uniqueValues globalUniqueValues rest)
          else (case py_index uniqueValues (int attribute) of
                  Inl e \<Rightarrow> Inl e
                | Inr u \<Rightarrow>
                    (case py_len u of
                       Inl e \<Rightarrow> Inl e
                     | Inr n \<Rightarrow>
                         if n > 1 then Inr True
                         else CanSplit_attributes aDataSet uniqueValues globalUniqueValues rest)))"

text \<open>\<^verbatim>\<open>DecisionTree.CanSplit\<close> (lines 379-403).\<close>

definition CanSplit :: "dataset \<Rightarrow> container list \<Rightarrow> container list \<Rightarrow> bool result" where
  "CanSplit aDataSet uniqueValues globalUniqueValues =
     (case py_index uniqueValues (int (length uniqueValues) - 1) of
        Inl e \<Rightarrow> Inl e
      | Inr labels \<Rightarrow>
          (case py_len labels of
             Inl e \<Rightarrow> Inl e
           | Inr n \<Rightarrow>
               if n = 1 then Inr False
               else CanSplit_attributes aDataSet uniqueValues globalUniqueValues
                      [0..<length uniqueValues - 1]))"

subsection \<open>Counts, GiniIndex and FindBestSplit\<close>

text \<open>
  \<^verbatim>\<open>DecisionTree.Counts\<close> (lines 439-447): the loop carries \<^verbatim>\<open>count\<close> and \<^verbatim>\<open>trues\<close>.
\<close>

fun Counts_loop :: "pyval \<Rightarrow> nat \<Rightarrow> nat \<Rightarrow> nat \<Rightarrow> dataset \<Rightarrow> (nat \<times> nat) result" where
  "Counts_loop aElement aAttributeIndex count trues [] = Inr (count, trues)"
| "Counts_loop aElement aAttributeIndex count trues (data # rest) =
     (case py_index data (int aAttributeIndex) of
        Inl e \<Rightarrow> Inl e
      | Inr v \<Rightarrow>
          if v = aElement
          then (case py_index data (int (length data) - 1) of
                  Inl e \<Rightarrow> Inl e
                | Inr label \<Rightarrow>
                    Counts_loop aElement aAttributeIndex (count + 1)
                      (if label = Str ''Yes'' \<or> label = Num 1 then trues + 1 else trues) rest)
          else Counts_loop aElement aAttributeIndex count trues rest)"

definition Counts :: "dataset \<Rightarrow> pyval \<Rightarrow> nat \<Rightarrow> (nat \<times> nat \<times> nat) result" where
  "Counts aData aElement aAttributeIndex =
     (case Counts_loop aElement aAttributeIndex 0 0 aData of
        Inl e \<Rightarrow> Inl e
      | Inr (count, trues) \<Rightarrow> Inr (trues, count - trues, count))"

text \<open>Lines 428-434: the loop of \<^verbatim>\<open>GiniIndex\<close> over the candidate values.\<close>

fun GiniIndex_loop :: "dataset \<Rightarrow> nat \<Rightarrow> real \<Rightarrow> pyval list \<Rightarrow> real result" where
  "GiniIndex_loop aDataSet aAttributeIndex entropy [] = Inr entropy"
| "GiniIndex_loop aDataSet aAttributeIndex entropy (ele # rest) =
     (case Counts aDataSet ele aAttributeIndex of
        Inl e \<Rightarrow> Inl e
      | Inr (trues, falses, count) \<Rightarrow>
          if count = 0 then GiniIndex_loop aDataSet aAttributeIndex entropy rest
          else
     (case truediv (real trues) (real count) of
        Inl e \<Rightarrow> Inl e
      | Inr t \<Rightarrow>
     (case truediv (real falses) (real count) of
        Inl e \<Rightarrow> Inl e
      | Inr f \<Rightarrow>
     (case truediv (real count) (real (length aDataSet)) of
        Inl e \<Rightarrow> Inl e
      | Inr totalPercent \<Rightarrow>
          GiniIndex_loop aDataSet aAttributeIndex
            (entropy + totalPercent * (1 - t\<^sup>2 - f\<^sup>2)) rest))))"

text \<open>
  \<^verbatim>\<open>DecisionTree.GiniIndex\<close> (lines 420-436), with the divisions, squares, products and
  sums of lines 432-434 in exact arithmetic.
\<close>

definition GiniIndex :: "dataset \<Rightarrow> nat \<Rightarrow> container list \<Rightarrow> real result" where
  "GiniIndex aDataSet aAttributeIndex aPossibleValues =
     (case py_index aPossibleValues (int aAttributeIndex) of
        Inl e \<Rightarrow> Inl e
      | Inr uniqueElements \<Rightarrow>
     (case py_len uniqueElements of
        Inl e \<Rightarrow> Inl e
      | Inr n \<Rightarrow>
          if n = 1 then Inr 0
          else (case py_iter uniqueElements of
                  Inl e \<Rightarrow> Inl e
                | Inr eles \<Rightarrow> GiniIndex_loop aDataSet aAttributeIndex 0 eles)))"

text \<open>
  Lines 409-416: the loop of \<^verbatim>\<open>FindBestSplit\<close> over the attributes. The Gini values
  that line 412 receives and line 414 compares are IEEE doubles: the order of two doubles
  is the order of the reals they denote, but the sum that lines 432-434 accumulate in
  doubles is not always the real number \<open>GiniIndex\<close> above, and two attributes whose exact
  values tie can differ in the last bit. The loop therefore takes the call
  \<^verbatim>\<open>self.GiniIndex(aDataSet, attribute, uniqueValues)\<close> as its parameter \<open>gini\<close>: the value
  the machine computes there, read as the real it denotes.
\<close>

fun FindBestSplit_loop ::
  "(dataset \<Rightarrow> nat \<Rightarrow> container list \<Rightarrow> real result) \<Rightarrow>
   dataset \<Rightarrow> container list \<Rightarrow> real \<Rightarrow> int \<Rightarrow> nat list \<Rightarrow> (real \<times> int) result" where
  "FindBestSplit_loop gini aDataSet uniqueValues bestInfo bestAttribute [] =
     Inr (bestInfo, bestAttribute)"
| "FindBestSplit_loop gini aDataSet uniqueValues bestInfo bestAttribute (attribute # rest) =
     (case py_index uniqueValues (int attribute) of
        Inl e \<Rightarrow> Inl e
      | Inr u \<Rightarrow>
     (case py_len u of
        Inl e \<Rightarrow> Inl e
      | Inr n \<Rightarrow>
          if n = 1 then FindBestSplit_loop gini aDataSet uniqueValues bestInfo bestAttribute rest
          else (case gini aDataSet attribute uniqueValues of
                  Inl e \<Rightarrow> Inl e
                | Inr giniIndex \<Rightarrow>
                    if giniIndex < bestInfo
                    then FindBestSplit_loop gini aDataSet uniqueValues giniIndex (int attribute) rest
                    else FindBestSplit_loop gini aDataSet uniqueValues bestInfo bestAttribute
                           rest)))"

text \<open>\<^verbatim>\<open>DecisionTree.FindBestSplit\<close> (lines 405-418).\<close>

definition FindBestSplit ::
  "(dataset \<Rightarrow> nat \<Rightarrow> container list \<Rightarrow> real result) \<Rightarrow>
   dataset \<Rightarrow> container list \<Rightarrow> (real \<times> int) result" where
  "FindBestSplit gini aDataSet uniqueValues =
     (case py_index aDataSet 0 of
        Inl e \<Rightarrow> Inl e
      | Inr row0 \<Rightarrow>
          FindBestSplit_loop gini aDataSet uniqueValues 2 (- 1) [0..<length row0 - 1])"

text \<open>
  What is asked of the computed values: \<open>gini\<close> raises where \<open>GiniIndex\<close> raises (the errors
  come from the indexing, not from the arithmetic) and otherwise returns a number less
  than 1 away from the exact value. The rounding of lines 432-434 stays many orders of
  magnitude below that; the exact arithmetic itself is one such \<open>gini\<close>.
\<close>

definition approximates :: "(dataset \<Rightarrow> nat \<Rightarrow> container list \<Rightarrow> real result) \<Rightarrow> bool" where
  "approximates gini \<longleftrightarrow>
     (\<forall>aDataSet aAttributeIndex aPossibleValues.
        case GiniIndex aDataSet aAttributeIndex aPossibleValues of
          Inl e \<Rightarrow> gini aDataSet aAttributeIndex aPossibleValues = Inl e
        | Inr x \<Rightarrow> (\<exists>g. gini aDataSet aAttributeIndex aPossibleValues = Inr g \<and> \<bar>g - x\<bar> < 1))"

subsection \<open>CreateTreeRecursive and CreateTree\<close>

text \<open>
  Lines 359-366: \<^verbatim>\<open>splitSets\<close> starts as a list of \<^verbatim>\<open>None\<close>; each row goes to the group
  of the first question it matches, a row that matches none goes nowhere.
\<close>

definition split_row :: "Question list \<Rightarrow> dataset option list \<Rightarrow> row \<Rightarrow> dataset option list result" where
  "split_row questions splitSets aRow =
     (case first_match questions aRow 0 of
        Inl e \<Rightarrow> Inl e
      | Inr None \<Rightarrow> Inr splitSets
      | Inr (Some i) \<Rightarrow>
          Inr (splitSets[i := Some ((case splitSets ! i of None \<Rightarrow> [] | Some g \<Rightarrow> g) @ [aRow])]))"

fun split_rows :: "Question list \<Rightarrow> dataset option list \<Rightarrow> dataset \<Rightarrow> dataset option list result" where
  "split_rows questions splitSets [] = Inr splitSets"
| "split_rows questions splitSets (aRow # rest) =
     (case split_row questions splitSets aRow of
        Inl e \<Rightarrow> Inl e
      | Inr s \<Rightarrow> split_rows questions s rest)"

text \<open>Lines 354-357: one question per local candidate of the chosen attribute.\<close>

definition make_questions :: "container list \<Rightarrow> int \<Rightarrow> Question list result" where
  "make_questions childUniqueValues attributeIndex =
     (case py_index childUniqueValues attributeIndex of
        Inl e \<Rightarrow> Inl e
      | Inr c \<Rightarrow>
          (case py_iter c of
             Inl e \<Rightarrow> Inl e
           | Inr atts \<Rightarrow> Inr (map (\<lambda>att. \<lparr>Attribute = attributeIndex, Value = att\<rparr>) atts)))"

text \<open>
  \<^verbatim>\<open>DecisionTree.CreateTreeRecursive\<close> (lines 332-377) and its loop over the groups
  (lines 372-374). The recursion has no bound of its own in the source, so the functions
  take fuel: \<open>None\<close> is "the fuel ran out", \<open>Some (Inl e)\<close> is a raised error and
  \<open>Some (Inr (t, self'))\<close> is the node returned together with the object, whose \<^verbatim>\<open>Depth\<close>
  line 352 may have raised. The data set is \<open>None\<close> where line 374 passes a group that
  is still \<^verbatim>\<open>None\<close>, on which line 249 raises \<^verbatim>\<open>TypeError\<close>. The parameter \<open>gini\<close> is
  the one of \<open>FindBestSplit\<close>.
\<close>

fun CreateTreeRecursive ::
  "(dataset \<Rightarrow> nat \<Rightarrow> container list \<Rightarrow> real result) \<Rightarrow>
   nat \<Rightarrow> DecisionTree \<Rightarrow> dataset option \<Rightarrow> nat \<Rightarrow> (node \<times> DecisionTree) result option"
and CreateBranches ::
  "(dataset \<Rightarrow> nat \<Rightarrow> container list \<Rightarrow> real result) \<Rightarrow>
   nat \<Rightarrow> DecisionTree \<Rightarrow> dataset option list \<Rightarrow> nat \<Rightarrow>
   (node list \<times> DecisionTree) result option"
where
  "CreateTreeRecursive gini 0 self aDataSet aDepth = None"
| "CreateTreeRecursive gini (Suc fuel) self None aDepth = Some (Inl TypeError)"
| "CreateTreeRecursive gini (Suc fuel) self (Some ds) aDepth =
     (case GetChildPossibleValues self ds of
        Inl e \<Rightarrow> Some (Inl e)
      | Inr childUniqueValues \<Rightarrow>
     (case CanSplit ds childUniqueValues (GlobalUniqueValues self) of
        Inl e \<Rightarrow> Some (Inl e)
      | Inr can \<Rightarrow>
          if \<not> can
          then (case CalculateCounts ds of
                  Inl e \<Rightarrow> Some (Inl e)
                | Inr c \<Rightarrow> Some (Inr (LeafNode c aDepth, self)))
          else
     (case FindBestSplit gini ds childUniqueValues of
        Inl e \<Rightarrow> Some (Inl e)
      | Inr (giniIndex, attributeIndex) \<Rightarrow>
     (case make_questions childUniqueValues attributeIndex of
        Inl e \<Rightarrow> Some (Inl e)
      | Inr questions \<Rightarrow>
     (case split_rows questions (replicate (length questions) None) ds of
        Inl e \<Rightarrow> Some (Inl e)
      | Inr splitSets \<Rightarrow>
     (case CreateBranches gini fuel
             (if aDepth > Depth self then self\<lparr>Depth := aDepth\<rparr> else self)
             splitSets (aDepth + 1) of
        None \<Rightarrow> None
      | Some (Inl e) \<Rightarrow> Some (Inl e)
      | Some (Inr (branches, self')) \<Rightarrow>
          Some (Inr (DecisionNode questions branches aDepth, self'))))))))"
| "CreateBranches gini fuel self [] aDepth = Some (Inr ([], self))"
| "CreateBranches gini fuel self (g # rest) aDepth =
     (case CreateTreeRecursive gini fuel self g aDepth of
        None \<Rightarrow> None
      | Some (Inl e) \<Rightarrow> Some (Inl e)
      | Some (Inr (b, self1)) \<Rightarrow>
          (case CreateBranches gini fuel self1 rest aDepth of
             None \<Rightarrow> None
           | Some (Inl e) \<Rightarrow> Some (Inl e)
           | Some (Inr (bs, self2)) \<Rightarrow> Some (Inr (b # bs, self2))))"

text \<open>\<^verbatim>\<open>DecisionTree.CreateTree\<close> (lines 315-330).\<close>

definition CreateTree ::
  "(dataset \<Rightarrow> nat \<Rightarrow> container list \<Rightarrow> real result) \<Rightarrow>
   nat \<Rightarrow> DecisionTree \<Rightarrow> DecisionTree result option" where
  "CreateTree gini fuel self =
     (case GetPossibleValues self (TrainingData self) of
        Inl e \<Rightarrow> Some (Inl e)
      | Inr guv \<Rightarrow>
     (case GetQuestions (self\<lparr>GlobalUniqueValues := guv\<rparr>) of
        Inl e \<Rightarrow> Some (Inl e)
      | Inr self1 \<Rightarrow>
     (case CreateTreeRecursive gini fuel self1 (Some (TrainingData self1)) 0 of
        None \<Rightarrow> None
      | Some (Inl e) \<Rightarrow> Some (Inl e)
      | Some (Inr (t, self2)) \<Rightarrow> Some (Inr (self2\<lparr>Root := Some t\<rparr>)))))"

section \<open>Claims about Question\<close>

lemma py_index_nat: "py_index xs (int i) = (if i < length xs then Inr (xs ! i) else Inl IndexError)"
  by (simp add: py_index_def)

text \<open>
  C1, as amended. \<open>Match\<close> chooses the comparison by the type of the row's value at the
  attribute, not by the type of the question's reference value: a numeric row value is
  compared with \<open>\<le>\<close> (and raises \<^verbatim>\<open>TypeError\<close> against a reference that is not numeric),
  any other row value is compared with \<open>=\<close>. Where the row's value and the reference value
  are of the same kind this is the comparison that the reference value's type selects.
\<close>

theorem Match_chooses_by_row_value:
  assumes "py_index aRow (Attribute q) = Inr val"
  shows "(IsFloat val \<and> IsFloat (Value q) \<longrightarrow> Match q aRow = Inr (num_of val \<le> num_of (Value q)))
       \<and> (IsFloat val \<and> \<not> IsFloat (Value q) \<longrightarrow> Match q aRow = Inl TypeError)
       \<and> (\<not> IsFloat val \<longrightarrow> Match q aRow = Inr (val = Value q))"
  using assms by (cases val; cases "Value q") (simp_all add: Match_def)

theorem Match_chooses_by_row_value_witness:
  "Match \<lparr>Attribute = 1, Value = Num 3\<rparr> [Str ''Green'', Num 1, Str ''Yes''] = Inr True
 \<and> Match \<lparr>Attribute = 0, Value = Str ''Green''\<rparr> [Num 7, Num 1, Str ''Yes''] = Inl TypeError
 \<and> Match \<lparr>Attribute = 0, Value = Str ''Green''\<rparr> [Str ''Red'', Num 1, Str ''Yes''] = Inr False"
  using Match_chooses_by_row_value [of "[Str ''Green'', Num 1, Str ''Yes'']"
          "\<lparr>Attribute = 1, Value = Num 3\<rparr>" "Num 1"]
        Match_chooses_by_row_value [of "[Num 7, Num 1, Str ''Yes'']"
          "\<lparr>Attribute = 0, Value = Str ''Green''\<rparr>" "Num 7"]
        Match_chooses_by_row_value [of "[Str ''Red'', Num 1, Str ''Yes'']"
          "\<lparr>Attribute = 0, Value = Str ''Green''\<rparr>" "Str ''Red''"]
  by (simp add: py_index_def)

text \<open>
  C1 as stated fails: with a reference value that is not numeric the claim has \<open>Match\<close>
  return the equality test (here \<open>False\<close>), but the row's value is numeric, so the code
  evaluates \<^verbatim>\<open>7.0 <= "Green"\<close> and raises. Conversely a numeric reference value against a
  string in the row is compared with \<open>=\<close>, where \<open>\<le>\<close> would raise.
\<close>

theorem Match_by_reference_type_counterexample:
  "\<not> IsFloat (Value \<lparr>Attribute = 0, Value = Str ''Green''\<rparr>)
 \<and> Match \<lparr>Attribute = 0, Value = Str ''Green''\<rparr> [Num 7, Str ''Yes''] = Inl TypeError
 \<and> Match \<lparr>Attribute = 0, Value = Str ''Green''\<rparr> [Num 7, Str ''Yes'']
      \<noteq> Inr (Num 7 = Str ''Green'')
 \<and> IsFloat (Value \<lparr>Attribute = 0, Value = Num 3\<rparr>)
 \<and> Match \<lparr>Attribute = 0, Value = Num 3\<rparr> [Str ''Red'', Str ''Yes''] = Inr False
 \<and> Match \<lparr>Attribute = 0, Value = Num 3\<rparr> [Str ''Red'', Str ''Yes'']
      \<noteq> py_le (Str ''Red'') (Num 3)"
  by (simp add: Match_def py_index_def)

section \<open>The first matching question\<close>

lemma first_match_hit:
  "i < length qs \<Longrightarrow> Match (qs ! i) aRow = Inr True \<Longrightarrow>
   (\<forall>j<i. Match (qs ! j) aRow = Inr False) \<Longrightarrow>
   first_match qs aRow k = Inr (Some (k + i))"
proof (induction qs arbitrary: i k)
  case Nil
  then show ?case by simp
next
  case (Cons q qs)
  show ?case
  proof (cases i)
    case 0
    with Cons.prems show ?thesis by simp
  next
    case (Suc i')
    from Cons.prems Suc have "Match q aRow = Inr False" by auto
    moreover from Cons.prems Suc have "first_match qs aRow (Suc k) = Inr (Some (Suc k + i'))"
      by (intro Cons.IH) auto
    ultimately show ?thesis using Suc by simp
  qed
qed

lemma first_match_miss:
  "(\<forall>j<length qs. Match (qs ! j) aRow = Inr False) \<Longrightarrow> first_match qs aRow k = Inr None"
proof (induction qs arbitrary: k)
  case Nil
  then show ?case by simp
next
  case (Cons q qs)
  from Cons.prems have "Match q aRow = Inr False" by auto
  moreover from Cons.prems have "first_match qs aRow (Suc k) = Inr None"
    by (intro Cons.IH) auto
  ultimately show ?case by simp
qed

section \<open>Claims about DecisionNode\<close>

text \<open>
  C3. For a \<open>DecisionNode\<close> whose question and branch lists are non-empty and of equal
  length, \<open>Decide\<close> on a row is \<open>Decide\<close> of the branch at the index of the first
  question, in list order, that matches the row; when no question matches it is \<open>Decide\<close>
  of the first branch, and the node itself raises nothing.
\<close>

theorem Decide_first_match_or_first_child:
  assumes "length qs = length bs" and "qs \<noteq> []"
  shows "(i < length qs \<and> Match (qs ! i) aData = Inr True
            \<and> (\<forall>j<i. Match (qs ! j) aData = Inr False)
          \<longrightarrow> Decide (DecisionNode qs bs d) aData = Decide (bs ! i) aData)
       \<and> ((\<forall>j<length qs. Match (qs ! j) aData = Inr False)
          \<longrightarrow> Decide (DecisionNode qs bs d) aData = Decide (bs ! 0) aData)"
proof (intro conjI impI)
  assume h: "i < length qs \<and> Match (qs ! i) aData = Inr True
            \<and> (\<forall>j<i. Match (qs ! j) aData = Inr False)"
  then have "first_match qs aData 0 = Inr (Some (0 + i))"
    by (intro first_match_hit) auto
  with h assms show "Decide (DecisionNode qs bs d) aData = Decide (bs ! i) aData"
    by (simp add: py_index_nat)
next
  assume "\<forall>j<length qs. Match (qs ! j) aData = Inr False"
  then have "first_match qs aData 0 = Inr None"
    by (rule first_match_miss)
  moreover from assms have "bs \<noteq> []" by auto
  ultimately show "Decide (DecisionNode qs bs d) aData = Decide (bs ! 0) aData"
    by (simp add: py_index_def)
qed

theorem Decide_first_match_or_first_child_witness:
  "Decide (DecisionNode [\<lparr>Attribute = 1, Value = Num 1\<rparr>, \<lparr>Attribute = 1, Value = Num 3\<rparr>]
             [LeafNode [(Str ''No'', 1)] 1, LeafNode [(Str ''Yes'', 2)] 1] 0)
          [Str ''Green'', Num 3] = Inr [(Str ''Yes'', 2)]
 \<and> Decide (DecisionNode [\<lparr>Attribute = 1, Value = Num 1\<rparr>, \<lparr>Attribute = 1, Value = Num 3\<rparr>]
             [LeafNode [(Str ''No'', 1)] 1, LeafNode [(Str ''Yes'', 2)] 1] 0)
          [Str ''Green'', Num 5] = Inr [(Str ''No'', 1)]"
proof -
  let ?qs = "[\<lparr>Attribute = 1, Value = Num 1\<rparr>, \<lparr>Attribute = 1, Value = Num 3\<rparr>]"
  let ?bs = "[LeafNode [(Str ''No'', 1)] 1, LeafNode [(Str ''Yes'', 2)] 1]"
  have len: "length ?qs = length ?bs" and ne: "?qs \<noteq> []" by simp_all
  have a: "Suc 0 < length ?qs \<and> Match (?qs ! Suc 0) [Str ''Green'', Num 3] = Inr True
            \<and> (\<forall>j<Suc 0. Match (?qs ! j) [Str ''Green'', Num 3] = Inr False)"
    by (simp add: Match_def py_index_def)
  have b: "\<forall>j<length ?qs. Match (?qs ! j) [Str ''Green'', Num 5] = Inr False"
    by (simp add: Match_def py_index_def less_Suc_eq)
  from Decide_first_match_or_first_child [OF len ne, of "Suc 0" "[Str ''Green'', Num 3]" 0] a
  have "Decide (DecisionNode ?qs ?bs 0) [Str ''Green'', Num 3] = Decide (?bs ! Suc 0) [Str ''Green'', Num 3]"
    by blast
  moreover from Decide_first_match_or_first_child [OF len ne, of 0 "[Str ''Green'', Num 5]" 0] b
  have "Decide (DecisionNode ?qs ?bs 0) [Str ''Green'', Num 5] = Decide (?bs ! 0) [Str ''Green'', Num 5]"
    by blast
  ultimately show ?thesis by simp
qed

section \<open>Claims about the evaluation\<close>

lemma py_index_last: "xs \<noteq> [] \<Longrightarrow> py_index xs (int (length xs) - 1) = Inr (last xs)"
  by (cases xs rule: rev_cases) (simp_all add: py_index_def nat_diff_distrib')

text \<open>
  C8. For a row on which the tree returns the counts \<open>c\<close> and whose last element is the
  answer, the loop goes on with \<open>tally c answer k\<close>. There \<open>guessedTrue\<close> holds iff
  \<^verbatim>\<open>"Yes"\<close> or \<^verbatim>\<open>1\<close> is a key of \<open>c\<close> and \<open>guessedFalse\<close> iff \<^verbatim>\<open>"No"\<close> or \<^verbatim>\<open>0\<close> is. When
  exactly one of the two guessed flags holds and the answer is one of the four canonical
  labels, exactly one of the cells TP, TN, FP, FN goes up by one, the one that the flags
  name. When both guessed flags hold, at most one cell goes up: TP when the answer is
  positive, else TN when it is negative, and never FP or FN.
\<close>

theorem tally_confusion_cells:
  assumes "Decide aRoot aRow = Inr c" and "aRow \<noteq> []"
  shows "Decide_rows aRoot k (aRow # rest) = Decide_rows aRoot (tally c (last aRow) k) rest
       \<and> (guessedTrue c \<longleftrightarrow> Str ''Yes'' \<in> fst ` set c \<or> Num 1 \<in> fst ` set c)
       \<and> (guessedFalse c \<longleftrightarrow> Str ''No'' \<in> fst ` set c \<or> Num 0 \<in> fst ` set c)
       \<and> (guessedTrue c \<noteq> guessedFalse c \<and> (wasTrue answer \<or> wasFalse answer) \<longrightarrow>
            (TP (tally c answer k), TN (tally c answer k), FP (tally c answer k), FN (tally c answer k)) =
              (if guessedTrue c \<and> wasTrue answer then (TP k + 1, TN k, FP k, FN k)
               else if guessedFalse c \<and> wasFalse answer then (TP k, TN k + 1, FP k, FN k)
               else if guessedTrue c \<and> wasFalse answer then (TP k, TN k, FP k + 1, FN k)
               else (TP k, TN k, FP k, FN k + 1)))
       \<and> (guessedTrue c \<and> guessedFalse c \<longrightarrow>
            (TP (tally c answer k), TN (tally c answer k), FP (tally c answer k), FN (tally c answer k)) =
              (if wasTrue answer then (TP k + 1, TN k, FP k, FN k)
               else if wasFalse answer then (TP k, TN k + 1, FP k, FN k)
               else (TP k, TN k, FP k, FN k)))"
proof (intro conjI)
  show "Decide_rows aRoot k (aRow # rest) = Decide_rows aRoot (tally c (last aRow) k) rest"
    using assms by (simp add: py_index_last)
  show "guessedTrue c \<longleftrightarrow> Str ''Yes'' \<in> fst ` set c \<or> Num 1 \<in> fst ` set c"
    by (simp add: guessedTrue_def keys_def)
  show "guessedFalse c \<longleftrightarrow> Str ''No'' \<in> fst ` set c \<or> Num 0 \<in> fst ` set c"
    by (simp add: guessedFalse_def keys_def)
  have not_both: "\<not> (wasTrue answer \<and> wasFalse answer)"
    by (auto simp: wasTrue_def wasFalse_def)
  show "guessedTrue c \<noteq> guessedFalse c \<and> (wasTrue answer \<or> wasFalse answer) \<longrightarrow>
            (TP (tally c answer k), TN (tally c answer k), FP (tally c answer k), FN (tally c answer k)) =
              (if guessedTrue c \<and> wasTrue answer then (TP k + 1, TN k, FP k, FN k)
               else if guessedFalse c \<and> wasFalse answer then (TP k, TN k + 1, FP k, FN k)
               else if guessedTrue c \<and> wasFalse answer then (TP k, TN k, FP k + 1, FN k)
               else (TP k, TN k, FP k, FN k + 1))"
    using not_both by (auto simp: tally_def Let_def)
  show "guessedTrue c \<and> guessedFalse c \<longrightarrow>
            (TP (tally c answer k), TN (tally c answer k), FP (tally c answer k), FN (tally c answer k)) =
              (if wasTrue answer then (TP k + 1, TN k, FP k, FN k)
               else if wasFalse answer then (TP k, TN k + 1, FP k, FN k)
               else (TP k, TN k, FP k, FN k))"
    using not_both by (auto simp: tally_def Let_def)
qed

theorem tally_confusion_cells_witness:
  "Decide_rows (LeafNode [(Str ''Yes'', 3), (Str ''No'', 2)] 0)
     \<lparr>total = 0, TP = 0, TN = 0, FP = 0, FN = 0, P = 0, N = 0\<rparr>
     [[Str ''Red'', Str ''No'']]
   = Inr \<lparr>total = 1, TP = 0, TN = 1, FP = 0, FN = 0, P = 0, N = 1\<rparr>
 \<and> guessedTrue [(Str ''Yes'', 3), (Str ''No'', 2)]
 \<and> guessedFalse [(Str ''Yes'', 3), (Str ''No'', 2)]
 \<and> TP (tally [(Str ''Yes'', 5)] (Str ''No'')
          \<lparr>total = 0, TP = 0, TN = 0, FP = 0, FN = 0, P = 0, N = 0\<rparr>) = 0
 \<and> FP (tally [(Str ''Yes'', 5)] (Str ''No'')
          \<lparr>total = 0, TP = 0, TN = 0, FP = 0, FN = 0, P = 0, N = 0\<rparr>) = 1"
proof -
  let ?k = "\<lparr>total = 0, TP = 0, TN = 0, FP = 0, FN = 0, P = 0, N = 0\<rparr>"
  let ?c = "[(Str ''Yes'', 3), (Str ''No'', 2)]"
  have d: "Decide (LeafNode ?c 0) [Str ''Red'', Str ''No''] = Inr ?c" by simp
  have ne: "[Str ''Red'', Str ''No''] \<noteq> []" by simp
  note w1 = tally_confusion_cells [OF d ne, of ?k "[]" "Str ''No''"]
  have d2: "Decide (LeafNode [(Str ''Yes'', 5)] 0) [Str ''Red'', Str ''No''] = Inr [(Str ''Yes'', 5)]"
    by simp
  note w2 = tally_confusion_cells [OF d2 ne, of ?k "[]" "Str ''No''"]
  have g: "guessedTrue ?c" "guessedFalse ?c" "guessedTrue [(Str ''Yes'', 5)]"
    "\<not> guessedFalse [(Str ''Yes'', 5)]" "wasFalse (Str ''No'')" "\<not> wasTrue (Str ''No'')"
    by (simp_all add: guessedTrue_def guessedFalse_def keys_def wasTrue_def wasFalse_def)
  from w1 g have "Decide_rows (LeafNode ?c 0) ?k [[Str ''Red'', Str ''No'']]
      = Inr (tally ?c (Str ''No'') ?k)"
    by simp
  moreover from w1 g have "(TP (tally ?c (Str ''No'') ?k), TN (tally ?c (Str ''No'') ?k),
       FP (tally ?c (Str ''No'') ?k), FN (tally ?c (Str ''No'') ?k)) = (0, 1, 0, 0)"
    by simp
  moreover have "total (tally ?c (Str ''No'') ?k) = 1 \<and> P (tally ?c (Str ''No'') ?k) = 0
       \<and> N (tally ?c (Str ''No'') ?k) = 1"
    using g by (simp add: tally_def Let_def)
  ultimately have "Decide_rows (LeafNode ?c 0) ?k [[Str ''Red'', Str ''No'']]
      = Inr \<lparr>total = 1, TP = 0, TN = 1, FP = 0, FN = 0, P = 0, N = 1\<rparr>"
    by (simp add: counters.equality)
  moreover from w2 g have "TP (tally [(Str ''Yes'', 5)] (Str ''No'') ?k) = 0
      \<and> FP (tally [(Str ''Yes'', 5)] (Str ''No'') ?k) = 1"
    by simp
  ultimately show ?thesis using g by simp
qed

text \<open>
  C9. From any final counters the metrics are computed without an error: the accuracy is
  \<open>(TP + TN) / (P + N) * 100\<close> when \<open>P + N > 0\<close>, the precision \<open>TP / (TP + FP) * 100\<close>
  when \<open>TP + FP > 0\<close>, the recall \<open>TP / P * 100\<close> when \<open>P > 0\<close>, and each is the
  sentinel \<open>-1\<close> otherwise; no division by zero is raised.
\<close>

theorem metrics_sentinel:
  "metrics k =
     Inr \<lparr>total = total k, TP = TP k, TN = TN k, FP = FP k, FN = FN k, P = P k, N = N k,
          Accuracy = (if 0 < P k + N k then real (TP k + TN k) / real (P k + N k) * 100 else - 1),
          Precision = (if 0 < TP k + FP k then real (TP k) / real (TP k + FP k) * 100 else - 1),
          Recall = (if 0 < P k then real (TP k) / real (P k) * 100 else - 1)\<rparr>"
  by (simp add: metrics_def truediv_def)

theorem metrics_sentinel_witness:
  "metrics \<lparr>total = 3, TP = 0, TN = 3, FP = 0, FN = 0, P = 0, N = 3\<rparr> =
     Inr \<lparr>total = 3, TP = 0, TN = 3, FP = 0, FN = 0, P = 0, N = 3,
          Accuracy = 100, Precision = - 1, Recall = - 1\<rparr>"
  using metrics_sentinel [of "\<lparr>total = 3, TP = 0, TN = 3, FP = 0, FN = 0, P = 0, N = 3\<rparr>"]
  by simp

section \<open>Counts and GiniIndex\<close>

text \<open>The rows of a data set in which column \<open>a\<close> holds \<open>v\<close>, and the positives among them.\<close>

definition group_of :: "dataset \<Rightarrow> nat \<Rightarrow> pyval \<Rightarrow> dataset" where
  "group_of ds a v = filter (\<lambda>r. r ! a = v) ds"

definition positives :: "dataset \<Rightarrow> dataset" where
  "positives ds = filter (\<lambda>r. last r = Str ''Yes'' \<or> last r = Num 1) ds"

lemma Counts_loop_eq:
  "\<forall>r\<in>set ds. a < length r \<Longrightarrow>
   Counts_loop v a c t ds =
     Inr (c + length (group_of ds a v), t + length (positives (group_of ds a v)))"
proof (induction ds arbitrary: c t)
  case Nil
  then show ?case by (simp add: group_of_def positives_def)
next
  case (Cons r ds)
  from Cons.prems have len: "a < length r" and ne: "r \<noteq> []" by auto
  from Cons.prems have rest: "\<forall>r\<in>set ds. a < length r" by simp
  show ?case
    using len ne Cons.IH [OF rest]
    by (simp add: py_index_nat py_index_last group_of_def positives_def)
qed

lemma positives_le: "length (positives ds) \<le> length ds"
  by (simp add: positives_def)

lemma Counts_eq:
  assumes "\<forall>r\<in>set ds. a < length r"
  shows "Counts ds v a =
     Inr (length (positives (group_of ds a v)),
          length (group_of ds a v) - length (positives (group_of ds a v)),
          length (group_of ds a v))"
  using Counts_loop_eq [OF assms, of v 0 0] by (simp add: Counts_def)

text \<open>The summand of one candidate value (lines 429-434).\<close>

definition gini_term :: "dataset \<Rightarrow> nat \<Rightarrow> pyval \<Rightarrow> real" where
  "gini_term ds a v =
     (let c = real (length (group_of ds a v));
          t = real (length (positives (group_of ds a v)))
      in if c = 0 then 0
         else c / real (length ds) * (1 - (t / c)\<^sup>2 - ((c - t) / c)\<^sup>2))"

lemma group_of_le: "length (group_of ds a v) \<le> length ds"
  by (simp add: group_of_def)

lemma GiniIndex_loop_eq:
  assumes "\<forall>r\<in>set ds. a < length r"
  shows "GiniIndex_loop ds a e eles = Inr (e + sum_list (map (gini_term ds a) eles))"
proof (induction eles arbitrary: e)
  case Nil
  then show ?case by simp
next
  case (Cons v eles)
  let ?c = "length (group_of ds a v)"
  let ?t = "length (positives (group_of ds a v))"
  have tc: "?t \<le> ?c" by (rule positives_le)
  show ?case
  proof (cases "?c = 0")
    case True
    then show ?thesis
      using Cons.IH by (simp add: Counts_eq [OF assms] gini_term_def)
  next
    case False
    moreover have "?c \<le> length ds" by (rule group_of_le)
    ultimately have "length ds \<noteq> 0" by linarith
    with False tc show ?thesis
      using Cons.IH
      by (simp add: Counts_eq [OF assms] gini_term_def truediv_def Let_def of_nat_diff
            add.assoc)
  qed
qed

lemma gini_term_bounds:
  "0 \<le> gini_term ds a v \<and>
   gini_term ds a v \<le> real (length (group_of ds a v)) / real (length ds)"
proof -
  let ?c = "real (length (group_of ds a v))"
  let ?t = "real (length (positives (group_of ds a v)))"
  have tc: "?t \<le> ?c" using positives_le [of "group_of ds a v"] by simp
  show ?thesis
  proof (cases "?c = 0")
    case True
    then show ?thesis by (simp add: gini_term_def)
  next
    case False
    then have cpos: "0 < ?c" by simp
    define p where "p = ?t / ?c"
    have p0: "0 \<le> p" by (simp add: p_def)
    have p1: "p \<le> 1" using tc cpos by (simp add: p_def)
    have q: "(?c - ?t) / ?c = 1 - p" using cpos by (simp add: p_def diff_divide_distrib)
    have id: "1 - p\<^sup>2 - (1 - p)\<^sup>2 = 2 * p * (1 - p)" by (simp add: power2_eq_square algebra_simps)
    have lo: "0 \<le> 1 - p\<^sup>2 - (1 - p)\<^sup>2" using p0 p1 by (simp add: id)
    have "p * (1 - p) \<le> 1 * 1" using p0 p1 by (intro mult_mono) auto
    moreover have "p\<^sup>2 \<ge> 0" "(1 - p)\<^sup>2 \<ge> 0" by simp_all
    ultimately have hi: "1 - p\<^sup>2 - (1 - p)\<^sup>2 \<le> 1" by linarith
    have w: "0 \<le> ?c / real (length ds)" by simp
    have g: "gini_term ds a v = ?c / real (length ds) * (1 - p\<^sup>2 - (1 - p)\<^sup>2)"
      using False by (simp add: gini_term_def Let_def q p_def)
    have "gini_term ds a v \<le> ?c / real (length ds) * 1"
      unfolding g using w hi by (intro mult_left_mono) auto
    moreover have "0 \<le> gini_term ds a v"
      unfolding g using w lo by (intro mult_nonneg_nonneg) auto
    ultimately show ?thesis by simp
  qed
qed

lemma group_sizes_le:
  assumes "distinct eles"
  shows "sum_list (map (\<lambda>v. length (group_of ds a v)) eles) \<le> length ds"
proof -
  let ?xs = "map (\<lambda>r. r ! a) ds"
  have cnt: "length (group_of ds a v) = count_list ?xs v" for v
    by (induction ds) (auto simp: group_of_def)
  have "sum_list (map (\<lambda>v. length (group_of ds a v)) eles) = sum (count_list ?xs) (set eles)"
    using assms by (simp add: cnt sum_list_distinct_conv_sum_set)
  also have "\<dots> \<le> sum (count_list ?xs) (set eles \<union> set ?xs)"
    by (intro sum_mono2) auto
  also have "\<dots> = length ?xs"
    by (intro sum_count_set) auto
  finally show ?thesis by simp
qed

lemma gini_sum_bounds:
  assumes "distinct eles" and "ds \<noteq> []"
  shows "0 \<le> sum_list (map (gini_term ds a) eles)"
    and "sum_list (map (gini_term ds a) eles) \<le> 1"
proof -
  show "0 \<le> sum_list (map (gini_term ds a) eles)"
    by (intro sum_list_nonneg) (auto simp: gini_term_bounds)
  have "sum_list (map (gini_term ds a) eles)
        \<le> sum_list (map (\<lambda>v. real (length (group_of ds a v)) / real (length ds)) eles)"
    by (intro sum_list_mono) (simp add: gini_term_bounds)
  also have "\<dots> = real (sum_list (map (\<lambda>v. length (group_of ds a v)) eles)) / real (length ds)"
    by (induction eles) (simp_all add: add_divide_distrib)
  also have "\<dots> \<le> 1"
    using group_sizes_le [OF assms(1), of ds a] assms(2) by simp
  finally show "sum_list (map (gini_term ds a) eles) \<le> 1" .
qed

lemma GiniIndex_eq:
  assumes "\<forall>r\<in>set ds. a < length r" and "a < length pv"
    and "pv ! a = ListC eles \<or> pv ! a = SetC eles"
  shows "GiniIndex ds a pv =
     Inr (if length eles = 1 then 0 else sum_list (map (gini_term ds a) eles))"
  using assms(2,3) GiniIndex_loop_eq [OF assms(1), of 0 eles]
  by (auto simp: GiniIndex_def py_index_nat)

lemma GiniIndex_bounds:
  assumes "\<forall>r\<in>set ds. a < length r" and "a < length pv"
    and "pv ! a = ListC eles \<or> pv ! a = SetC eles"
    and "distinct eles" and "ds \<noteq> []"
  shows "\<exists>g. GiniIndex ds a pv = Inr g \<and> 0 \<le> g \<and> g \<le> 1"
  using GiniIndex_eq [OF assms(1-3)] gini_sum_bounds [OF assms(4,5), of a]
  by auto

text \<open>
  C7. On a non-empty data set whose rows all reach the attribute's column, and for an
  attribute whose candidates are a non-empty list or set without repetition (a Python set,
  or the \<^verbatim>\<open>list(set(...))\<close> of lines 266 and 289), \<open>GiniIndex\<close> returns a value between 0
  and 1; it returns 0 when \<open>Counts\<close> finds every candidate's group pure, that is with no
  positive row or with no other row. The floats are idealised as reals.
\<close>

theorem GiniIndex_in_unit_interval:
  assumes "aDataSet \<noteq> []" and "\<forall>r\<in>set aDataSet. a < length r" and "a < length pv"
    and "pv ! a = ListC eles \<or> pv ! a = SetC eles" and "eles \<noteq> []" and "distinct eles"
  shows "\<exists>g. GiniIndex aDataSet a pv = Inr g \<and> 0 \<le> g \<and> g \<le> 1
           \<and> ((\<forall>v\<in>set eles. \<exists>t f c. Counts aDataSet v a = Inr (t, f, c) \<and> (t = 0 \<or> f = 0))
                \<longrightarrow> g = 0)"
proof -
  let ?g = "if length eles = 1 then 0 else sum_list (map (gini_term aDataSet a) eles)"
  have eq: "GiniIndex aDataSet a pv = Inr ?g"
    by (rule GiniIndex_eq [OF assms(2-4)])
  have b: "0 \<le> ?g \<and> ?g \<le> 1"
    using gini_sum_bounds [OF assms(6,1), of a] by simp
  have pure: "?g = 0"
    if h: "\<forall>v\<in>set eles. \<exists>t f c. Counts aDataSet v a = Inr (t, f, c) \<and> (t = 0 \<or> f = 0)"
  proof -
    have "gini_term aDataSet a v = 0" if "v \<in> set eles" for v
    proof -
      let ?c = "length (group_of aDataSet a v)"
      let ?t = "length (positives (group_of aDataSet a v))"
      from h that have "?t = 0 \<or> ?c - ?t = 0"
        by (auto simp: Counts_eq [OF assms(2)])
      moreover have "?t \<le> ?c" by (rule positives_le)
      ultimately have "?t = 0 \<or> ?t = ?c" by linarith
      then show ?thesis
        by (auto simp: gini_term_def Let_def)
    qed
    then have "sum_list (map (gini_term aDataSet a) eles) = 0"
      by (induction eles) auto
    then show ?thesis by simp
  qed
  from eq b pure show ?thesis by blast
qed

theorem GiniIndex_in_unit_interval_witness:
  "(\<exists>g. GiniIndex [[Str ''a'', Str ''Yes''], [Str ''a'', Str ''No''], [Str ''b'', Str ''Yes'']] 0
         [SetC [Str ''a'', Str ''b''], SetC [Str ''Yes'', Str ''No'']] = Inr g
       \<and> 0 \<le> g \<and> g \<le> 1)
 \<and> GiniIndex [[Num 1, Str ''No''], [Num 3, Str ''Yes''], [Num 3, Str ''Yes'']] 0
         [ListC [Num 1, Num 3], SetC [Str ''Yes'', Str ''No'']] = Inr 0"
proof -
  let ?ds = "[[Str ''a'', Str ''Yes''], [Str ''a'', Str ''No''], [Str ''b'', Str ''Yes'']]"
  let ?pv = "[SetC [Str ''a'', Str ''b''], SetC [Str ''Yes'', Str ''No'']]"
  have "\<exists>g. GiniIndex ?ds 0 ?pv = Inr g \<and> 0 \<le> g \<and> g \<le> 1
           \<and> ((\<forall>v\<in>set [Str ''a'', Str ''b'']. \<exists>t f c. Counts ?ds v 0 = Inr (t, f, c) \<and> (t = 0 \<or> f = 0))
                \<longrightarrow> g = 0)"
    by (rule GiniIndex_in_unit_interval) simp_all
  then have first: "\<exists>g. GiniIndex ?ds 0 ?pv = Inr g \<and> 0 \<le> g \<and> g \<le> 1" by blast
  let ?ds2 = "[[Num 1, Str ''No''], [Num 3, Str ''Yes''], [Num 3, Str ''Yes'']]"
  let ?pv2 = "[ListC [Num 1, Num 3], SetC [Str ''Yes'', Str ''No'']]"
  have "\<exists>g. GiniIndex ?ds2 0 ?pv2 = Inr g \<and> 0 \<le> g \<and> g \<le> 1
           \<and> ((\<forall>v\<in>set [Num 1, Num 3]. \<exists>t f c. Counts ?ds2 v 0 = Inr (t, f, c) \<and> (t = 0 \<or> f = 0))
                \<longrightarrow> g = 0)"
    by (rule GiniIndex_in_unit_interval) simp_all
  moreover have "\<forall>v\<in>set [Num 1, Num 3]. \<exists>t f c. Counts ?ds2 v 0 = Inr (t, f, c) \<and> (t = 0 \<or> f = 0)"
    by (simp add: Counts_def py_index_def)
  ultimately have "GiniIndex ?ds2 0 ?pv2 = Inr 0" by blast
  with first show ?thesis by blast
qed

section \<open>Claims about CanSplit\<close>

lemma IsFloat_container_False: "\<not> IsFloat_container c"
  by (cases c) simp_all

lemma CanSplit_attributes_eq:
  assumes "\<forall>a\<in>set as. a < length uv \<and> a < length guv \<and> uv ! a \<noteq> NoneC"
  shows "CanSplit_attributes ds uv guv as = Inr (\<exists>a\<in>set as. \<exists>n>1. py_len (uv ! a) = Inr n)"
  using assms
proof (induction as)
  case Nil
  then show ?case by simp
next
  case (Cons a as)
  from Cons.prems have a: "a < length uv" "a < length guv" "uv ! a \<noteq> NoneC" by auto
  from Cons.prems have "CanSplit_attributes ds uv guv as
      = Inr (\<exists>a\<in>set as. \<exists>n>1. py_len (uv ! a) = Inr n)"
    by (intro Cons.IH) auto
  with a show ?case
    by (cases "uv ! a") (auto simp: py_index_nat IsFloat_container_False)
qed

text \<open>
  What \<open>CanSplit\<close> computes: \<open>False\<close> when the label column has exactly one local candidate;
  otherwise \<open>True\<close> iff some attribute before the label, numeric or categorical alike, has
  more than one local candidate. The rows are not read.
\<close>

lemma CanSplit_by_candidate_counts:
  assumes "uniqueValues \<noteq> []" and "\<forall>c\<in>set uniqueValues. c \<noteq> NoneC"
    and "length uniqueValues - 1 \<le> length globalUniqueValues"
  shows "CanSplit aDataSet uniqueValues globalUniqueValues =
           Inr (py_len (last uniqueValues) \<noteq> Inr 1
                \<and> (\<exists>a<length uniqueValues - 1. \<exists>n>1. py_len (uniqueValues ! a) = Inr n))"
proof -
  have l: "py_index uniqueValues (int (length uniqueValues) - 1) = Inr (last uniqueValues)"
    using assms(1) by (rule py_index_last)
  from assms(1,2) have ln: "last uniqueValues \<noteq> NoneC" by auto
  have "\<forall>a\<in>set [0..<length uniqueValues - 1].
          a < length uniqueValues \<and> a < length globalUniqueValues \<and> uniqueValues ! a \<noteq> NoneC"
    using assms(2,3) by auto
  then have at: "CanSplit_attributes aDataSet uniqueValues globalUniqueValues
                   [0..<length uniqueValues - 1]
               = Inr (\<exists>a\<in>set [0..<length uniqueValues - 1].
                        \<exists>n>1. py_len (uniqueValues ! a) = Inr n)"
    by (rule CanSplit_attributes_eq)
  show ?thesis
    using ln at by (cases "last uniqueValues") (auto simp: CanSplit_def l)
qed

text \<open>
  C2. \<open>CanSplit\<close> does not decide a numeric attribute by the walk with the signed counter
  that the claim describes. The training data
  \<^verbatim>\<open>[[x,1,Yes],[x,2,Yes],[x,3,Yes],[y,2,Yes],[y,3,No]]\<close> is split on attribute 0, and
  \<open>CanSplit\<close> is then called on the group of \<^verbatim>\<open>y\<close>: two rows with the values 2 and 3 of a
  numeric attribute whose global candidates are 1, 2 and 3. The guard of line 384 asks
  \<^verbatim>\<open>IsFloat\<close> of the container of global candidates and is false, so the answer \<open>True\<close>
  comes from the count of local candidates (line 400) and no row is read. The walk of
  lines 385-398, which the comments of lines 385 and 392 announce, is never entered.
  Entered with the question that line 387 builds, whose value is the whole container, it
  raises \<^verbatim>\<open>TypeError\<close> at the first row; with one global candidate as the value it sees
  no sign flip for \<open>\<le> 1\<close> and for \<open>\<le> 3\<close>, after which no attribute is left to qualify, and
  a flip for \<open>\<le> 2\<close> only.
\<close>

theorem CanSplit_numeric_attribute_not_walked:
  "CanSplit [[Str ''y'', Num 2, Str ''Yes''], [Str ''y'', Num 3, Str ''No'']]
            [SetC [Str ''y''], ListC [Num 2, Num 3], SetC [Str ''Yes'', Str ''No'']]
            [SetC [Str ''x'', Str ''y''], ListC [Num 1, Num 2, Num 3],
             SetC [Str ''Yes'', Str ''No'']] = Inr True
 \<and> \<not> IsFloat_container (ListC [Num 1, Num 2, Num 3])
 \<and> CanSplit_walk (Match_container 1 (ListC [Num 1, Num 2, Num 3])) 0
      [[Str ''y'', Num 2, Str ''Yes''], [Str ''y'', Num 3, Str ''No'']] = Inl TypeError
 \<and> CanSplit_walk (Match \<lparr>Attribute = 1, Value = Num 1\<rparr>) 0
      [[Str ''y'', Num 2, Str ''Yes''], [Str ''y'', Num 3, Str ''No'']] = Inr False
 \<and> CanSplit_walk (Match \<lparr>Attribute = 1, Value = Num 2\<rparr>) 0
      [[Str ''y'', Num 2, Str ''Yes''], [Str ''y'', Num 3, Str ''No'']] = Inr True
 \<and> CanSplit_walk (Match \<lparr>Attribute = 1, Value = Num 3\<rparr>) 0
      [[Str ''y'', Num 2, Str ''Yes''], [Str ''y'', Num 3, Str ''No'']] = Inr False"
  by (simp add: CanSplit_def py_index_def Match_container_def Match_def)

section \<open>Well-formed data sets\<close>

text \<open>
  A data set with \<open>n\<close> columns: every row has \<open>n\<close> cells, and a column holds floats in
  every row or strings in every row.
\<close>

definition well_formed :: "nat \<Rightarrow> dataset \<Rightarrow> bool" where
  "well_formed n ds \<longleftrightarrow>
     (\<forall>r\<in>set ds. length r = n \<and> (\<forall>r'\<in>set ds. map IsFloat r' = map IsFloat r))"

definition column :: "dataset \<Rightarrow> nat \<Rightarrow> pyval list" where
  "column ds j = map (\<lambda>r. r ! j) ds"

lemma well_formed_kind:
  "well_formed n ds \<Longrightarrow> r \<in> set ds \<Longrightarrow> r' \<in> set ds \<Longrightarrow> j < n \<Longrightarrow>
   IsFloat (r ! j) = IsFloat (r' ! j)"
proof -
  assume wf: "well_formed n ds" and r: "r \<in> set ds" and r': "r' \<in> set ds" and j: "j < n"
  from wf r r' have m: "map IsFloat r' = map IsFloat r" and l: "length r = n" "length r' = n"
    unfolding well_formed_def by blast+
  from m have "map IsFloat r' ! j = map IsFloat r ! j" by simp
  with l j show ?thesis by simp
qed

lemma well_formed_length: "well_formed n ds \<Longrightarrow> r \<in> set ds \<Longrightarrow> length r = n"
  unfolding well_formed_def by blast

lemma well_formed_subset:
  "well_formed n ds \<Longrightarrow> set ds' \<subseteq> set ds \<Longrightarrow> well_formed n ds'"
  unfolding well_formed_def by blast

section \<open>The first loop of GetPossibleValues\<close>

text \<open>What lines 275-280 do to one container, where they do not raise.\<close>

fun absorb :: "container \<Rightarrow> pyval \<Rightarrow> container" where
  "absorb NoneC w = (if IsFloat w then ListC [w] else SetC [w])"
| "absorb (ListC xs) w = ListC (xs @ [w])"
| "absorb (SetC xs) w = SetC (if w \<in> set xs then xs else xs @ [w])"

fun fits :: "container \<Rightarrow> pyval \<Rightarrow> bool" where
  "fits NoneC w = True"
| "fits (ListC xs) w = IsFloat w"
| "fits (SetC xs) w = (\<not> IsFloat w)"

lemma GPV_word_eq:
  "j < length pv \<Longrightarrow> fits (pv ! j) w \<Longrightarrow> GPV_word pv j w = Inr (pv[j := absorb (pv ! j) w])"
  by (cases "pv ! j") (auto simp: GPV_word_def py_index_nat)

lemma GPV_row_eq:
  "j + length ws \<le> length pv \<Longrightarrow> \<forall>k<length ws. fits (pv ! (j + k)) (ws ! k) \<Longrightarrow>
   \<exists>rs. GPV_row pv j ws = Inr rs \<and> length rs = length pv
      \<and> (\<forall>i<length pv. rs ! i =
            (if j \<le> i \<and> i < j + length ws then absorb (pv ! i) (ws ! (i - j)) else pv ! i))"
proof (induction ws arbitrary: pv j)
  case Nil
  then show ?case by auto
next
  case (Cons w ws)
  let ?pv = "pv[j := absorb (pv ! j) w]"
  from Cons.prems have j: "j < length pv" by simp
  from Cons.prems(2) have "fits (pv ! (j + 0)) ((w # ws) ! 0)" by blast
  then have f0: "fits (pv ! j) w" by simp
  have w: "GPV_word pv j w = Inr ?pv" using j f0 by (rule GPV_word_eq)
  have len: "Suc j + length ws \<le> length ?pv" using Cons.prems(1) by simp
  have fit: "\<forall>k<length ws. fits (?pv ! (Suc j + k)) (ws ! k)"
  proof (intro allI impI)
    fix k assume k: "k < length ws"
    then have "Suc k < length (w # ws)" by simp
    with Cons.prems(2) have "fits (pv ! (j + Suc k)) ((w # ws) ! Suc k)"
      by blast
    then show "fits (?pv ! (Suc j + k)) (ws ! k)" by simp
  qed
  from Cons.IH [OF len fit] obtain rs where
    rs: "GPV_row ?pv (Suc j) ws = Inr rs" "length rs = length ?pv"
        "\<forall>i<length ?pv. rs ! i =
            (if Suc j \<le> i \<and> i < Suc j + length ws
             then absorb (?pv ! i) (ws ! (i - Suc j)) else ?pv ! i)"
    by blast
  have "GPV_row pv j (w # ws) = Inr rs" using w rs(1) by simp
  moreover have "length rs = length pv" using rs(2) by simp
  moreover have "\<forall>i<length pv. rs ! i =
            (if j \<le> i \<and> i < j + length (w # ws)
             then absorb (pv ! i) ((w # ws) ! (i - j)) else pv ! i)"
  proof (intro allI impI)
    fix i assume i: "i < length pv"
    show "rs ! i = (if j \<le> i \<and> i < j + length (w # ws)
             then absorb (pv ! i) ((w # ws) ! (i - j)) else pv ! i)"
    proof (cases "i = j")
      case True
      with rs(3) i show ?thesis by simp
    next
      case False
      from rs(3) i have r: "rs ! i = (if Suc j \<le> i \<and> i < Suc j + length ws
             then absorb (?pv ! i) (ws ! (i - Suc j)) else ?pv ! i)" by simp
      show ?thesis
      proof (cases "Suc j \<le> i \<and> i < Suc j + length ws")
        case True
        then have "(w # ws) ! (i - j) = ws ! (i - Suc j)"
          by (simp add: nth_Cons' Suc_diff_le)
        with True False r show ?thesis by simp
      next
        case False
        with \<open>i \<noteq> j\<close> r show ?thesis by auto
      qed
    qed
  qed
  ultimately show ?case by blast
qed


text \<open>A column fits a container when each value fits what the values before it left.\<close>

fun fits_all :: "container \<Rightarrow> pyval list \<Rightarrow> bool" where
  "fits_all c [] = True"
| "fits_all c (x # xs) = (fits c x \<and> fits_all (absorb c x) xs)"

lemma GPV_rows_eq:
  "\<forall>r\<in>set ds. length r = length pv \<Longrightarrow>
   \<forall>i<length pv. fits_all (pv ! i) (column ds i) \<Longrightarrow>
   \<exists>rs. GPV_rows pv ds = Inr rs \<and> length rs = length pv
      \<and> (\<forall>i<length pv. rs ! i = fold (\<lambda>x c. absorb c x) (column ds i) (pv ! i))"
proof (induction ds arbitrary: pv)
  case Nil
  then show ?case by (simp add: column_def)
next
  case (Cons r ds)
  from Cons.prems(1) have lr: "length r = length pv" by simp
  have f1: "\<forall>k<length r. fits (pv ! (0 + k)) (r ! k)"
    using Cons.prems(2) lr by (auto simp: column_def)
  from GPV_row_eq [of 0 r pv] lr f1 obtain pv' where
    pv': "GPV_row pv 0 r = Inr pv'" "length pv' = length pv"
         "\<forall>i<length pv. pv' ! i = absorb (pv ! i) (r ! i)"
    by auto
  have l2: "\<forall>r\<in>set ds. length r = length pv'" using Cons.prems(1) pv'(2) by simp
  have f2: "\<forall>i<length pv'. fits_all (pv' ! i) (column ds i)"
    using Cons.prems(2) pv'(2,3) by (auto simp: column_def)
  from Cons.IH [OF l2 f2] obtain rs where
    rs: "GPV_rows pv' ds = Inr rs" "length rs = length pv'"
        "\<forall>i<length pv'. rs ! i = fold (\<lambda>x c. absorb c x) (column ds i) (pv' ! i)"
    by blast
  have "GPV_rows pv (r # ds) = Inr rs" using pv'(1) rs(1) by simp
  moreover have "length rs = length pv" using rs(2) pv'(2) by simp
  moreover have "\<forall>i<length pv. rs ! i = fold (\<lambda>x c. absorb c x) (column (r # ds) i) (pv ! i)"
    using rs(3) pv'(2,3) by (simp add: column_def)
  ultimately show ?case by blast
qed

text \<open>A set in its order of insertion.\<close>

fun insert_all :: "pyval list \<Rightarrow> pyval list \<Rightarrow> pyval list" where
  "insert_all acc [] = acc"
| "insert_all acc (x # xs) = insert_all (if x \<in> set acc then acc else acc @ [x]) xs"

lemma set_insert_all: "set (insert_all acc xs) = set acc \<union> set xs"
  by (induction xs arbitrary: acc) auto

lemma distinct_insert_all: "distinct acc \<Longrightarrow> distinct (insert_all acc xs)"
  by (induction xs arbitrary: acc) auto

lemma fold_absorb_list:
  "list_all IsFloat xs \<Longrightarrow>
   fits_all (ListC ys) xs \<and> fold (\<lambda>x c. absorb c x) xs (ListC ys) = ListC (ys @ xs)"
  by (induction xs arbitrary: ys) auto

lemma fold_absorb_set:
  "list_all (\<lambda>v. \<not> IsFloat v) xs \<Longrightarrow>
   fits_all (SetC ys) xs \<and> fold (\<lambda>x c. absorb c x) xs (SetC ys) = SetC (insert_all ys xs)"
  by (induction xs arbitrary: ys) auto

text \<open>What the first loop leaves for a column of one kind.\<close>

definition gathered :: "pyval list \<Rightarrow> container" where
  "gathered xs =
     (if xs = [] then NoneC else if IsFloat (hd xs) then ListC xs else SetC (insert_all [] xs))"

lemma fold_absorb_None:
  assumes "list_all IsFloat xs \<or> list_all (\<lambda>v. \<not> IsFloat v) xs"
  shows "fits_all NoneC xs \<and> fold (\<lambda>x c. absorb c x) xs NoneC = gathered xs"
proof (cases xs)
  case Nil
  then show ?thesis by (simp add: gathered_def)
next
  case (Cons x xs')
  show ?thesis
  proof (cases "IsFloat x")
    case True
    with assms Cons have "list_all IsFloat xs'" by auto
    from fold_absorb_list [OF this, of "[x]"] True Cons show ?thesis
      by (simp add: gathered_def)
  next
    case False
    with assms Cons have "list_all (\<lambda>v. \<not> IsFloat v) xs'" by auto
    from fold_absorb_set [OF this, of "[x]"] False Cons show ?thesis
      by (simp add: gathered_def)
  qed
qed

lemma well_formed_column:
  assumes "well_formed n ds" and "j < n"
  shows "list_all IsFloat (column ds j) \<or> list_all (\<lambda>v. \<not> IsFloat v) (column ds j)"
proof (cases ds)
  case Nil
  then show ?thesis by (simp add: column_def)
next
  case (Cons r0 rest)
  then have r0: "r0 \<in> set ds" by simp
  have "\<forall>r\<in>set ds. IsFloat (r ! j) = IsFloat (r0 ! j)"
    using well_formed_kind [OF assms(1) _ r0 assms(2)] by blast
  then show ?thesis
    by (cases "IsFloat (r0 ! j)") (auto simp: column_def list_all_iff)
qed

lemma GPV_rows_well_formed:
  assumes "well_formed n ds"
  shows "GPV_rows (replicate n NoneC) ds = Inr (map (\<lambda>j. gathered (column ds j)) [0..<n])"
proof -
  have l: "\<forall>r\<in>set ds. length r = length (replicate n NoneC)"
    using well_formed_length [OF assms] by simp
  have f: "\<forall>i<length (replicate n NoneC). fits_all (replicate n NoneC ! i) (column ds i)"
    using fold_absorb_None [OF well_formed_column [OF assms]] by simp
  from GPV_rows_eq [OF l f] obtain rs where
    rs: "GPV_rows (replicate n NoneC) ds = Inr rs" "length rs = n"
        "\<forall>i<n. rs ! i = fold (\<lambda>x c. absorb c x) (column ds i) NoneC"
    by auto
  have "rs = map (\<lambda>j. gathered (column ds j)) [0..<n]"
    using rs(2,3) fold_absorb_None [OF well_formed_column [OF assms]]
    by (intro nth_equalityI) auto
  with rs(1) show ?thesis by simp
qed

section \<open>The second loop of GetPossibleValues\<close>

lemma map_result_map: "\<forall>x\<in>set xs. f x = Inr (g x) \<Longrightarrow> map_result f xs = Inr (map g xs)"
  by (induction xs) auto

text \<open>Lines 294-302 on a sorted list, with the indices as integer divisions.\<close>

definition buckets :: "pyval list \<Rightarrow> pyval list" where
  "buckets s =
     (let n = length s
      in if n \<ge> 3 then [s ! (n div 3 - 1), s ! (2 * n div 3 - 1), s ! (n - 1)] else s)"

lemma floor_thirds:
  "\<lfloor>real n / 3 * 1\<rfloor> = int (n div 3)"
  "\<lfloor>real n / 3 * 2\<rfloor> = int (2 * n div 3)"
  "\<lfloor>real n / 3 * 3\<rfloor> = int n"
proof -
  have e1: "real n / 3 * 1 = real n / real 3" by simp
  show "\<lfloor>real n / 3 * 1\<rfloor> = int (n div 3)"
    unfolding e1 by (rule floor_divide_of_nat_eq)
  have e2: "real n / 3 * 2 = real (2 * n) / real 3" by simp
  show "\<lfloor>real n / 3 * 2\<rfloor> = int (2 * n div 3)"
    unfolding e2 by (rule floor_divide_of_nat_eq)
  show "\<lfloor>real n / 3 * 3\<rfloor> = int n" by simp
qed

lemma py_index_pred:
  assumes "0 < k" and "k \<le> length xs"
  shows "py_index xs (int k - 1) = Inr (xs ! (k - 1))"
proof -
  have e: "int k - 1 = int (k - 1)" using assms(1) by (simp add: of_nat_diff)
  show ?thesis unfolding e py_index_nat using assms by simp
qed

lemma GPV_bucket_eq: "GPV_bucket s = Inr (buckets s)"
proof (cases "length s \<ge> 3")
  case False
  then show ?thesis by (simp add: GPV_bucket_def buckets_def)
next
  case True
  let ?n = "length s"
  have pa: "py_index s (\<lfloor>real ?n / 3 * 1\<rfloor> - 1) = Inr (s ! (?n div 3 - 1))"
    unfolding floor_thirds using True by (intro py_index_pred) auto
  have pb: "py_index s (\<lfloor>real ?n / 3 * 2\<rfloor> - 1) = Inr (s ! (2 * ?n div 3 - 1))"
    unfolding floor_thirds using True by (intro py_index_pred) auto
  have pc: "py_index s (\<lfloor>real ?n / 3 * 3\<rfloor> - 1) = Inr (s ! (?n - 1))"
    unfolding floor_thirds using True by (intro py_index_pred) auto
  show ?thesis
    unfolding GPV_bucket_def buckets_def Let_def pa pb pc using True by simp
qed

text \<open>The candidates that \<open>GetPossibleValues\<close> leaves for a column of one kind.\<close>

fun finished :: "container \<Rightarrow> container" where
  "finished (ListC xs) = ListC (buckets (sort_key num_of (remdups xs)))"
| "finished c = c"

definition global_candidates :: "pyval list \<Rightarrow> container" where
  "global_candidates xs = finished (gathered xs)"

lemma sorted_unique_floats:
  "list_all IsFloat xs \<Longrightarrow> sorted_unique xs = Inr (sort_key num_of (remdups xs))"
  by (simp add: sorted_unique_def Let_def list_all_iff)

lemma GPV_finish_gathered:
  assumes "list_all IsFloat xs \<or> list_all (\<lambda>v. \<not> IsFloat v) xs"
  shows "GPV_finish (gathered xs) = Inr (global_candidates xs)"
proof (cases "xs = []")
  case True
  then show ?thesis by (simp add: gathered_def global_candidates_def)
next
  case False
  show ?thesis
  proof (cases "IsFloat (hd xs)")
    case True
    with False assms have "list_all IsFloat xs" by (cases xs) auto
    then show ?thesis
      using False True
      by (simp add: gathered_def global_candidates_def sorted_unique_floats GPV_bucket_eq)
  next
    case f: False
    then show ?thesis using False by (simp add: gathered_def global_candidates_def)
  qed
qed

lemma GetPossibleValues_well_formed:
  assumes "well_formed (length (AttributeNames self)) ds"
  shows "GetPossibleValues self ds =
           Inr (map (\<lambda>j. global_candidates (column ds j)) [0..<length (AttributeNames self)])"
proof -
  let ?n = "length (AttributeNames self)"
  have "\<forall>c\<in>set (map (\<lambda>j. gathered (column ds j)) [0..<?n]).
          GPV_finish c = Inr (finished c)"
    using GPV_finish_gathered [OF well_formed_column [OF assms]]
    by (auto simp: global_candidates_def)
  then have "map_result GPV_finish (map (\<lambda>j. gathered (column ds j)) [0..<?n])
      = Inr (map finished (map (\<lambda>j. gathered (column ds j)) [0..<?n]))"
    by (rule map_result_map)
  then show ?thesis
    by (simp add: GetPossibleValues_def GPV_rows_well_formed [OF assms] global_candidates_def
          comp_def)
qed

section \<open>Claims about GetPossibleValues\<close>

lemma Num_num_of: "IsFloat v \<Longrightarrow> Num (num_of v) = v"
  by (cases v) simp_all

lemma num_of_inj: "IsFloat v \<Longrightarrow> IsFloat w \<Longrightarrow> num_of v = num_of w \<Longrightarrow> v = w"
  by (cases v; cases w) simp_all

lemma sort_key_floats:
  assumes "list_all IsFloat xs"
  shows "sort_key num_of (remdups xs) = map Num (sorted_list_of_set (num_of ` set xs))"
proof -
  let ?s = "sort_key num_of (remdups xs)"
  have fl: "\<forall>v\<in>set ?s. IsFloat v" using assms by (simp add: list_all_iff)
  have numbk: "map Num (map num_of ?s) = ?s"
    unfolding map_map using fl by (intro map_idI) (simp add: Num_num_of)
  have inj: "inj_on num_of (set ?s)"
    using fl by (auto simp: inj_on_def num_of_inj)
  have "sorted (map num_of ?s)" by (rule sorted_sort_key)
  moreover have "distinct (map num_of ?s)" using inj by (simp add: distinct_map)
  moreover have "set (map num_of ?s) = num_of ` set xs" by simp
  ultimately have "sorted_list_of_set (num_of ` set xs) = map num_of ?s"
    by (metis sorted_list_of_set.idem_if_sorted_distinct)
  with numbk show ?thesis by simp
qed

lemma gathered_floats:
  assumes "xs \<noteq> []" and "list_all IsFloat xs"
  shows "global_candidates xs =
     ListC (buckets (map Num (sorted_list_of_set (num_of ` set xs))))"
proof -
  have g: "gathered xs = ListC xs"
    using assms by (cases xs) (simp_all add: gathered_def)
  show ?thesis
    unfolding global_candidates_def g finished.simps sort_key_floats [OF assms(2)] ..
qed

section \<open>Claims about GetPossibleValues (continued)\<close>

text \<open>
  C5. On a well-formed data set, for a column \<open>j\<close> that holds numbers, \<open>GetPossibleValues\<close>
  leaves at index \<open>j\<close> a list made from \<open>s\<close>, the distinct values of the column in
  ascending order: \<open>s\<close> itself when it has fewer than 3 elements, and otherwise the three
  elements of \<open>s\<close> at the indices \<open>n div 3 - 1\<close>, \<open>2 * n div 3 - 1\<close> and \<open>n - 1\<close>, where \<open>n\<close>
  is the length of \<open>s\<close>.
\<close>

theorem GetPossibleValues_numeric_column:
  assumes "well_formed (length (AttributeNames self)) aTrainingData"
    and "aTrainingData \<noteq> []" and "j < length (AttributeNames self)"
    and "\<forall>r\<in>set aTrainingData. IsFloat (r ! j)"
  shows "\<exists>pv. GetPossibleValues self aTrainingData = Inr pv
           \<and> length pv = length (AttributeNames self)
           \<and> pv ! j = ListC
                (let s = map Num (sorted_list_of_set (num_of ` set (column aTrainingData j)));
                     n = length s
                 in if n < 3 then s else [s ! (n div 3 - 1), s ! (2 * n div 3 - 1), s ! (n - 1)])"
proof -
  let ?n = "length (AttributeNames self)"
  let ?pv = "map (\<lambda>j. global_candidates (column aTrainingData j)) [0..<?n]"
  have ne: "column aTrainingData j \<noteq> []" using assms(2) by (simp add: column_def)
  have fl: "list_all IsFloat (column aTrainingData j)"
    using assms(4) by (simp add: column_def list_all_iff)
  have "GetPossibleValues self aTrainingData = Inr ?pv"
    by (rule GetPossibleValues_well_formed [OF assms(1)])
  moreover have "length ?pv = ?n" by simp
  moreover have "?pv ! j = ListC
                (let s = map Num (sorted_list_of_set (num_of ` set (column aTrainingData j)));
                     n = length s
                 in if n < 3 then s else [s ! (n div 3 - 1), s ! (2 * n div 3 - 1), s ! (n - 1)])"
    using assms(3) by (simp add: gathered_floats [OF ne fl] buckets_def Let_def not_less)
  ultimately show ?thesis by blast
qed

theorem GetPossibleValues_numeric_column_witness:
  "(\<exists>pv. GetPossibleValues
           \<lparr>TrainingData = [], Root = None, AttributeNames = [''Size'', ''Label''], Depth = 0,
            GlobalUniqueValues = [], GlobalQuestions = []\<rparr>
           [[Num 4, Str ''Yes''], [Num 1, Str ''No''], [Num 3, Str ''Yes''],
            [Num 1, Str ''No''], [Num 2, Str ''No'']] = Inr pv
        \<and> pv ! 0 = ListC [Num 1, Num 2, Num 4])
 \<and> (\<exists>pv. GetPossibleValues
           \<lparr>TrainingData = [], Root = None, AttributeNames = [''Size'', ''Label''], Depth = 0,
            GlobalUniqueValues = [], GlobalQuestions = []\<rparr>
           [[Num 3, Str ''Yes''], [Num 1, Str ''No''], [Num 3, Str ''Yes'']] = Inr pv
        \<and> pv ! 0 = ListC [Num 1, Num 3])"
proof -
  let ?self = "\<lparr>TrainingData = [], Root = None, AttributeNames = [''Size'', ''Label''], Depth = 0,
            GlobalUniqueValues = [], GlobalQuestions = []\<rparr>"
  let ?a = "[[Num 4, Str ''Yes''], [Num 1, Str ''No''], [Num 3, Str ''Yes''],
            [Num 1, Str ''No''], [Num 2, Str ''No'']]"
  let ?b = "[[Num 3, Str ''Yes''], [Num 1, Str ''No''], [Num 3, Str ''Yes'']]"
  have "num_of ` set (column ?a 0) = set [4, 1, 3, 1, 2 :: real]"
    by (simp add: column_def)
  moreover have "sorted_list_of_set (set [4, 1, 3, 1, 2 :: real]) = sort (remdups [4, 1, 3, 1, 2])"
    by (simp only: sorted_list_of_set_sort_remdups)
  moreover have "sort (remdups [4, 1, 3, 1, 2 :: real]) = [1, 2, 3, 4]" by simp
  ultimately have sa: "sorted_list_of_set (num_of ` set (column ?a 0)) = [1, 2, 3, 4]"
    by (simp only:)
  have "num_of ` set (column ?b 0) = set [3, 1, 3 :: real]"
    by (simp add: column_def)
  moreover have "sorted_list_of_set (set [3, 1, 3 :: real]) = sort (remdups [3, 1, 3])"
    by (simp only: sorted_list_of_set_sort_remdups)
  moreover have "sort (remdups [3, 1, 3 :: real]) = [1, 3]" by simp
  ultimately have sb: "sorted_list_of_set (num_of ` set (column ?b 0)) = [1, 3]"
    by (simp only:)
  have "\<exists>pv. GetPossibleValues ?self ?a = Inr pv \<and> length pv = length (AttributeNames ?self)
           \<and> pv ! 0 = ListC
                (let s = map Num (sorted_list_of_set (num_of ` set (column ?a 0))); n = length s
                 in if n < 3 then s else [s ! (n div 3 - 1), s ! (2 * n div 3 - 1), s ! (n - 1)])"
    by (rule GetPossibleValues_numeric_column) (simp_all add: well_formed_def)
  then have A: "\<exists>pv. GetPossibleValues ?self ?a = Inr pv \<and> pv ! 0 = ListC [Num 1, Num 2, Num 4]"
    unfolding sa by (auto simp: Let_def)
  have "\<exists>pv. GetPossibleValues ?self ?b = Inr pv \<and> length pv = length (AttributeNames ?self)
           \<and> pv ! 0 = ListC
                (let s = map Num (sorted_list_of_set (num_of ` set (column ?b 0))); n = length s
                 in if n < 3 then s else [s ! (n div 3 - 1), s ! (2 * n div 3 - 1), s ! (n - 1)])"
    by (rule GetPossibleValues_numeric_column) (simp_all add: well_formed_def)
  then have B: "\<exists>pv. GetPossibleValues ?self ?b = Inr pv \<and> pv ! 0 = ListC [Num 1, Num 3]"
    unfolding sb by (auto simp: Let_def)
  from A B show ?thesis by blast
qed

section \<open>GetQuestions and the object that CreateTree prepares\<close>

fun elements :: "container \<Rightarrow> pyval list" where
  "elements NoneC = []"
| "elements (ListC xs) = xs"
| "elements (SetC xs) = xs"

definition questions_of :: "nat \<Rightarrow> pyval list \<Rightarrow> Question list" where
  "questions_of j vs = map (\<lambda>v. \<lparr>Attribute = int j, Value = v\<rparr>) vs"

text \<open>
  The object as \<open>CreateTree\<close> hands it to \<open>CreateTreeRecursive\<close> (lines 320-330): the training
  data is well formed and not empty, there is at least the label column, and the global
  candidates and questions are those of the training data.
\<close>

definition prepared :: "DecisionTree \<Rightarrow> dataset \<Rightarrow> bool" where
  "prepared self td \<longleftrightarrow>
     well_formed (length (AttributeNames self)) td \<and> td \<noteq> [] \<and> AttributeNames self \<noteq> [] \<and>
     GlobalUniqueValues self =
       map (\<lambda>j. global_candidates (column td j)) [0..<length (AttributeNames self)] \<and>
     GlobalQuestions self =
       map (\<lambda>j. questions_of j (elements (global_candidates (column td j))))
         [0..<length (AttributeNames self)]"

lemma GQ_values_append:
  "GQ_values (gq @ [qs]) (length gq) vs = gq @ [qs @ questions_of (length gq) vs]"
  by (induction vs arbitrary: qs) (simp_all add: questions_of_def Let_def)

lemma GQ_values_fresh:
  assumes "vs \<noteq> []"
  shows "GQ_values gq (length gq) vs = gq @ [questions_of (length gq) vs]"
proof (cases vs)
  case Nil
  with assms show ?thesis by simp
next
  case (Cons v vs')
  have "GQ_values gq (length gq) (v # vs')
      = GQ_values (gq @ [[\<lparr>Attribute = int (length gq), Value = v\<rparr>]]) (length gq) vs'"
    by (simp add: Let_def)
  also have "\<dots> = gq @ [[\<lparr>Attribute = int (length gq), Value = v\<rparr>] @ questions_of (length gq) vs']"
    by (rule GQ_values_append)
  finally show ?thesis using Cons by (simp add: questions_of_def)
qed

lemma GQ_loop_eq:
  "length gq = i \<Longrightarrow> \<forall>c\<in>set cs. elements c \<noteq> [] \<Longrightarrow>
   GQ_loop gq i cs = Inr (gq @ map (\<lambda>k. questions_of (i + k) (elements (cs ! k))) [0..<length cs])"
proof (induction cs arbitrary: gq i)
  case Nil
  then show ?case by simp
next
  case (Cons c cs)
  from Cons.prems have ne: "elements c \<noteq> []" by simp
  then have it: "py_iter c = Inr (elements c)" by (cases c) simp_all
  have v: "GQ_values gq i (elements c) = gq @ [questions_of i (elements c)]"
    using GQ_values_fresh [OF ne, of gq] Cons.prems(1) by simp
  have "GQ_loop (gq @ [questions_of i (elements c)]) (Suc i) cs =
          Inr ((gq @ [questions_of i (elements c)])
               @ map (\<lambda>k. questions_of (Suc i + k) (elements (cs ! k))) [0..<length cs])"
    using Cons.prems by (intro Cons.IH) auto
  moreover have "map (\<lambda>k. questions_of (i + k) (elements ((c # cs) ! k))) [0..<length (c # cs)]
      = questions_of i (elements c)
        # map (\<lambda>k. questions_of (Suc i + k) (elements (cs ! k))) [0..<length cs]"
    by (simp add: map_upt_Suc del: upt_Suc)
  ultimately show ?case using it v by simp
qed

lemma gathered_nonempty: "xs \<noteq> [] \<Longrightarrow> elements (gathered xs) \<noteq> []"
proof -
  assume "xs \<noteq> []"
  moreover have "insert_all [] xs \<noteq> []" if "xs \<noteq> []"
    using that set_insert_all [of "[]" xs] by (metis empty_set set_empty sup_bot.left_neutral)
  ultimately show ?thesis by (simp add: gathered_def)
qed

lemma buckets_nonempty: "s \<noteq> [] \<Longrightarrow> buckets s \<noteq> []"
  by (simp add: buckets_def Let_def)

lemma global_candidates_nonempty:
  assumes "xs \<noteq> []"
  shows "elements (global_candidates xs) \<noteq> []"
proof (cases "gathered xs")
  case NoneC
  with gathered_nonempty [OF assms] show ?thesis by simp
next
  case (ListC ys)
  with gathered_nonempty [OF assms] have "ys \<noteq> []" by simp
  then have "sort_key num_of (remdups ys) \<noteq> []"
    by (metis length_remdups_eq length_sort list.size(3) remdups_eq_nil_iff length_0_conv)
  then show ?thesis using ListC by (simp add: global_candidates_def buckets_nonempty)
next
  case (SetC ys)
  with gathered_nonempty [OF assms] show ?thesis by (simp add: global_candidates_def)
qed

text \<open>
  \<open>CreateTree\<close> on an object without questions yet and with well-formed training data
  runs \<open>CreateTreeRecursive\<close> on a prepared object.
\<close>

lemma CreateTree_prepared:
  assumes "well_formed (length (AttributeNames self)) (TrainingData self)"
    and "TrainingData self \<noteq> []" and "AttributeNames self \<noteq> []" and "GlobalQuestions self = []"
  shows "\<exists>self1. prepared self1 (TrainingData self) \<and> TrainingData self1 = TrainingData self
           \<and> GetPossibleValues self (TrainingData self) = Inr (GlobalUniqueValues self1)
           \<and> GetQuestions (self\<lparr>GlobalUniqueValues := GlobalUniqueValues self1\<rparr>) = Inr self1
           \<and> CreateTree gini fuel self =
               (case CreateTreeRecursive gini fuel self1 (Some (TrainingData self)) 0 of
                  None \<Rightarrow> None
                | Some (Inl e) \<Rightarrow> Some (Inl e)
                | Some (Inr (t, self2)) \<Rightarrow> Some (Inr (self2\<lparr>Root := Some t\<rparr>)))"
proof -
  let ?n = "length (AttributeNames self)"
  let ?td = "TrainingData self"
  let ?guv = "map (\<lambda>j. global_candidates (column ?td j)) [0..<?n]"
  let ?gq = "map (\<lambda>j. questions_of j (elements (global_candidates (column ?td j)))) [0..<?n]"
  let ?self1 = "self\<lparr>GlobalUniqueValues := ?guv, GlobalQuestions := ?gq\<rparr>"
  have gpv: "GetPossibleValues self ?td = Inr ?guv"
    by (rule GetPossibleValues_well_formed [OF assms(1)])
  have cne: "column ?td j \<noteq> []" for j using assms(2) by (simp add: column_def)
  have "\<forall>c\<in>set ?guv. elements c \<noteq> []"
    using global_candidates_nonempty [OF cne] by auto
  then have "GQ_loop [] 0 ?guv
      = Inr ([] @ map (\<lambda>k. questions_of (0 + k) (elements (?guv ! k))) [0..<length ?guv])"
    by (intro GQ_loop_eq) simp_all
  moreover have "map (\<lambda>k. questions_of (0 + k) (elements (?guv ! k))) [0..<length ?guv] = ?gq"
    by (intro nth_equalityI) simp_all
  ultimately have gq: "GQ_loop [] 0 ?guv = Inr ?gq" by simp
  have q: "GetQuestions (self\<lparr>GlobalUniqueValues := ?guv\<rparr>) = Inr ?self1"
    using gq assms(4) by (simp add: GetQuestions_def)
  have p: "prepared ?self1 ?td"
    using assms(1-3) by (simp add: prepared_def)
  have "CreateTree gini fuel self =
               (case CreateTreeRecursive gini fuel ?self1 (Some ?td) 0 of
                  None \<Rightarrow> None
                | Some (Inl e) \<Rightarrow> Some (Inl e)
                | Some (Inr (t, self2)) \<Rightarrow> Some (Inr (self2\<lparr>Root := Some t\<rparr>)))"
    by (simp add: CreateTree_def gpv q)
  with p gpv q show ?thesis
    by (intro exI [of _ ?self1]) simp
qed

section \<open>The first candidate that a cell matches\<close>

text \<open>What \<open>Match\<close> computes for a cell \<open>w\<close> against a candidate \<open>c\<close> of the same kind.\<close>

definition hit :: "pyval \<Rightarrow> pyval \<Rightarrow> bool" where
  "hit w c = (if IsFloat w then num_of w \<le> num_of c else w = c)"

fun first_hit :: "pyval \<Rightarrow> pyval list \<Rightarrow> nat option" where
  "first_hit w [] = None"
| "first_hit w (c # cs) = (if hit w c then Some 0 else map_option Suc (first_hit w cs))"

definition snap_cell :: "pyval list \<Rightarrow> pyval \<Rightarrow> pyval" where
  "snap_cell cs w = (case first_hit w cs of Some k \<Rightarrow> cs ! k | None \<Rightarrow> w)"

lemma Match_question:
  assumes "j < length r" and "IsFloat (r ! j) \<longrightarrow> IsFloat c"
  shows "Match \<lparr>Attribute = int j, Value = c\<rparr> r = Inr (hit (r ! j) c)"
  using assms by (cases "r ! j"; cases c) (simp_all add: Match_def py_index_nat hit_def)

lemma first_match_questions:
  assumes "j < length r" and "IsFloat (r ! j) \<longrightarrow> list_all IsFloat cs"
  shows "first_match (questions_of j cs) r i = Inr (map_option (\<lambda>k. i + k) (first_hit (r ! j) cs))"
  using assms(2)
proof (induction cs arbitrary: i)
  case Nil
  then show ?case by (simp add: questions_of_def)
next
  case (Cons c cs)
  from Cons.prems have c: "IsFloat (r ! j) \<longrightarrow> IsFloat c"
    and cs: "IsFloat (r ! j) \<longrightarrow> list_all IsFloat cs" by auto
  have m: "Match \<lparr>Attribute = int j, Value = c\<rparr> r = Inr (hit (r ! j) c)"
    using assms(1) c by (rule Match_question)
  have ih: "first_match (questions_of j cs) r (Suc i)
      = Inr (map_option (\<lambda>k. Suc i + k) (first_hit (r ! j) cs))"
    using cs by (rule Cons.IH)
  have q: "questions_of j (c # cs) = \<lparr>Attribute = int j, Value = c\<rparr> # questions_of j cs"
    by (simp add: questions_of_def)
  show ?case
    unfolding q using m ih by (simp add: option.map_comp comp_def)
qed

lemma first_hit_Some:
  "\<exists>c\<in>set cs. hit w c \<Longrightarrow>
   \<exists>k<length cs. first_hit w cs = Some k \<and> hit w (cs ! k) \<and> (\<forall>m<k. \<not> hit w (cs ! m))"
proof (induction cs)
  case Nil
  then show ?case by simp
next
  case (Cons c cs)
  show ?case
  proof (cases "hit w c")
    case True
    then show ?thesis by simp
  next
    case False
    with Cons.prems have "\<exists>c\<in>set cs. hit w c" by simp
    from Cons.IH [OF this] obtain k where
      k: "k < length cs" "first_hit w cs = Some k" "hit w (cs ! k)" "\<forall>m<k. \<not> hit w (cs ! m)"
      by blast
    have "\<forall>m<Suc k. \<not> hit w ((c # cs) ! m)"
      using False k(4) by (auto simp: nth_Cons' less_Suc_eq_0_disj)
    with False k show ?thesis
      by (intro exI [of _ "Suc k"]) simp
  qed
qed

lemma first_hit_bound: "first_hit w cs = Some k \<Longrightarrow> k < length cs \<and> hit w (cs ! k)"
proof (induction cs arbitrary: k)
  case Nil
  then show ?case by simp
next
  case (Cons c cs)
  then show ?case by (cases "hit w c") auto
qed

section \<open>GetChildPossibleValues\<close>

lemma GCPV_word_snap:
  assumes "i < length (GlobalQuestions self)"
    and "first_match (GlobalQuestions self ! i) r 0 = Inr (Some k)"
    and "IsFloat (Value (GlobalQuestions self ! i ! k)) = IsFloat word"
  shows "GCPV_word self r pv i word = GPV_word pv i (Value (GlobalQuestions self ! i ! k))"
  using assms by (simp add: GCPV_word_def GPV_word_def py_index_nat split: sum.splits)

text \<open>The kinds of the global candidates are the kind of their column.\<close>

lemma set_buckets: "set (buckets s) \<subseteq> set s"
  by (auto simp: buckets_def Let_def)

lemma global_candidates_floats:
  assumes "xs \<noteq> []" and "list_all IsFloat xs"
  shows "global_candidates xs = ListC (buckets (sort_key num_of (remdups xs)))"
    and "list_all IsFloat (elements (global_candidates xs))"
proof -
  have g: "gathered xs = ListC xs" using assms by (cases xs) (simp_all add: gathered_def)
  show e: "global_candidates xs = ListC (buckets (sort_key num_of (remdups xs)))"
    by (simp add: global_candidates_def g)
  have "set (buckets (sort_key num_of (remdups xs))) \<subseteq> set xs"
    using set_buckets [of "sort_key num_of (remdups xs)"] by simp
  with assms(2) show "list_all IsFloat (elements (global_candidates xs))"
    unfolding e by (auto simp: list_all_iff)
qed

lemma global_candidates_strings:
  assumes "xs \<noteq> []" and "list_all (\<lambda>v. \<not> IsFloat v) xs"
  shows "global_candidates xs = SetC (insert_all [] xs)"
    and "list_all (\<lambda>v. \<not> IsFloat v) (elements (global_candidates xs))"
proof -
  have g: "gathered xs = SetC (insert_all [] xs)"
    using assms by (cases xs) (simp_all add: gathered_def)
  show e: "global_candidates xs = SetC (insert_all [] xs)"
    by (simp add: global_candidates_def g)
  show "list_all (\<lambda>v. \<not> IsFloat v) (elements (global_candidates xs))"
    unfolding e using assms(2) by (simp add: list_all_iff set_insert_all)
qed

definition candidates_of :: "dataset \<Rightarrow> nat \<Rightarrow> pyval list" where
  "candidates_of td j = elements (global_candidates (column td j))"

lemma last_buckets: "s \<noteq> [] \<Longrightarrow> last (buckets s) = last s"
  by (simp add: buckets_def Let_def last_conv_nth)

lemma sorted_le_last:
  fixes xs :: "real list"
  assumes "sorted xs" and "x \<in> set xs"
  shows "x \<le> last xs"
proof -
  from assms(2) obtain i where i: "i < length xs" "xs ! i = x"
    by (auto simp: in_set_conv_nth)
  then have ne: "xs \<noteq> []" by auto
  have "xs ! i \<le> xs ! (length xs - 1)"
    using assms(1) i(1) by (intro sorted_nth_mono) auto
  with i ne show ?thesis by (simp add: last_conv_nth)
qed

lemma hit_last_sorted:
  assumes "w \<in> set xs" and "list_all IsFloat xs"
  shows "hit w (last (sort_key num_of (remdups xs)))"
proof -
  let ?s = "sort_key num_of (remdups xs)"
  have "set ?s = set xs" by simp
  with assms(1) have ne: "?s \<noteq> []" by (metis empty_iff empty_set)
  have "sorted (map num_of ?s)" by (rule sorted_sort_key)
  moreover have "num_of w \<in> set (map num_of ?s)" using assms(1) by simp
  ultimately have "num_of w \<le> last (map num_of ?s)"
    by (rule sorted_le_last)
  then have "num_of w \<le> num_of (last ?s)" using ne by (simp add: last_map)
  moreover have "IsFloat w" using assms by (simp add: list_all_iff)
  ultimately show ?thesis by (simp add: hit_def)
qed

lemma cell_hit:
  assumes "well_formed n td" and "r \<in> set td" and "j < n"
  shows "\<exists>k<length (candidates_of td j).
           first_hit (r ! j) (candidates_of td j) = Some k
         \<and> IsFloat (candidates_of td j ! k) = IsFloat (r ! j)
         \<and> (IsFloat (r ! j) \<longrightarrow> list_all IsFloat (candidates_of td j))"
proof -
  let ?xs = "column td j"
  let ?w = "r ! j"
  have w: "?w \<in> set ?xs" using assms(2) by (auto simp: column_def)
  then have ne: "?xs \<noteq> []" by auto
  from well_formed_column [OF assms(1,3)]
  show ?thesis
  proof
    assume fl: "list_all IsFloat ?xs"
    let ?s = "sort_key num_of (remdups ?xs)"
    have c: "candidates_of td j = buckets ?s"
      by (simp add: candidates_of_def global_candidates_floats(1) [OF ne fl])
    have allf: "list_all IsFloat (candidates_of td j)"
      using global_candidates_floats(2) [OF ne fl] by (simp add: candidates_of_def)
    have "set ?s = set ?xs" by simp
    with w have sne: "?s \<noteq> []" by (metis empty_iff empty_set)
    have "hit ?w (last (buckets ?s))"
      using hit_last_sorted [OF w fl] by (simp add: last_buckets [OF sne])
    moreover have "last (buckets ?s) \<in> set (buckets ?s)"
      using buckets_nonempty [OF sne] by simp
    ultimately have "\<exists>c\<in>set (candidates_of td j). hit ?w c" unfolding c by blast
    from first_hit_Some [OF this] obtain k where
      k: "k < length (candidates_of td j)" "first_hit ?w (candidates_of td j) = Some k" by blast
    have "IsFloat ?w" using w fl by (simp add: list_all_iff)
    moreover have "IsFloat (candidates_of td j ! k)"
      using allf k(1) by (simp add: list_all_length)
    ultimately show ?thesis using k allf by blast
  next
    assume st: "list_all (\<lambda>v. \<not> IsFloat v) ?xs"
    have c: "candidates_of td j = insert_all [] ?xs"
      by (simp add: candidates_of_def global_candidates_strings(1) [OF ne st])
    have alls: "list_all (\<lambda>v. \<not> IsFloat v) (candidates_of td j)"
      using global_candidates_strings(2) [OF ne st] by (simp add: candidates_of_def)
    have nf: "\<not> IsFloat ?w" using w st by (simp add: list_all_iff)
    then have "hit ?w ?w" by (simp add: hit_def)
    moreover have "?w \<in> set (candidates_of td j)" unfolding c using w by (simp add: set_insert_all)
    ultimately have "\<exists>c\<in>set (candidates_of td j). hit ?w c" by blast
    from first_hit_Some [OF this] obtain k where
      k: "k < length (candidates_of td j)" "first_hit ?w (candidates_of td j) = Some k" by blast
    have "\<not> IsFloat (candidates_of td j ! k)"
      using alls k(1) by (simp add: list_all_length)
    with nf k show ?thesis by blast
  qed
qed

text \<open>A row with every cell replaced by the first global candidate it matches.\<close>

definition snap :: "dataset \<Rightarrow> row \<Rightarrow> row" where
  "snap td r = map (\<lambda>i. snap_cell (candidates_of td i) (r ! i)) [0..<length r]"

lemma prepared_questions:
  "prepared self td \<Longrightarrow> i < length (AttributeNames self) \<Longrightarrow>
   i < length (GlobalQuestions self)
   \<and> GlobalQuestions self ! i = questions_of i (candidates_of td i)"
  by (simp add: prepared_def candidates_of_def)

lemma GCPV_word_prepared:
  assumes "prepared self td" and "r \<in> set td" and "i < length r"
  shows "GCPV_word self r pv i (r ! i) = GPV_word pv i (snap td r ! i)"
proof -
  let ?n = "length (AttributeNames self)"
  from assms(1) have wf: "well_formed ?n td" by (simp add: prepared_def)
  have lr: "length r = ?n" using well_formed_length [OF wf assms(2)] .
  with assms(3) have i: "i < ?n" by simp
  from cell_hit [OF wf assms(2) i] obtain k where
    k: "k < length (candidates_of td i)" "first_hit (r ! i) (candidates_of td i) = Some k"
       "IsFloat (candidates_of td i ! k) = IsFloat (r ! i)"
       "IsFloat (r ! i) \<longrightarrow> list_all IsFloat (candidates_of td i)"
    by blast
  note q = prepared_questions [OF assms(1) i]
  have fm: "first_match (GlobalQuestions self ! i) r 0 = Inr (Some k)"
    using first_match_questions [OF assms(3) k(4), of 0] k(2) q by simp
  have v: "Value (GlobalQuestions self ! i ! k) = candidates_of td i ! k"
    using q k(1) by (simp add: questions_of_def)
  have s: "snap td r ! i = candidates_of td i ! k"
    using assms(3) k(2) by (simp add: snap_def snap_cell_def)
  have "GCPV_word self r pv i (r ! i) = GPV_word pv i (Value (GlobalQuestions self ! i ! k))"
    using q fm v k(3) by (intro GCPV_word_snap) simp_all
  then show ?thesis by (simp add: v s)
qed

lemma GCPV_row_prepared:
  assumes "prepared self td" and "r \<in> set td"
  shows "drop i r = ws \<Longrightarrow> GCPV_row self r pv i ws = GPV_row pv i (drop i (snap td r))"
proof (induction ws arbitrary: i pv)
  case Nil
  then have "length r \<le> i" by simp
  then show ?case by (simp add: snap_def)
next
  case (Cons w ws)
  then have i: "i < length r"
    by (metis drop_eq_Nil list.distinct(1) not_le)
  have w: "w = r ! i" and ws: "drop (Suc i) r = ws"
    using Cons.prems Cons_nth_drop_Suc [OF i] by simp_all
  have ls: "i < length (snap td r)" using i by (simp add: snap_def)
  have d: "drop i (snap td r) = snap td r ! i # drop (Suc i) (snap td r)"
    using Cons_nth_drop_Suc [OF ls] by simp
  have "GCPV_word self r pv i w = GPV_word pv i (snap td r ! i)"
    unfolding w using assms i by (rule GCPV_word_prepared)
  then show ?case
    unfolding d using Cons.IH [OF ws] by (simp split: sum.splits)
qed

lemma GCPV_rows_prepared:
  assumes "prepared self td"
  shows "set ds \<subseteq> set td \<Longrightarrow> GCPV_rows self pv ds = GPV_rows pv (map (snap td) ds)"
proof (induction ds arbitrary: pv)
  case Nil
  then show ?case by simp
next
  case (Cons r ds)
  then have r: "r \<in> set td" and ds: "set ds \<subseteq> set td" by auto
  have "GCPV_row self r pv 0 r = GPV_row pv 0 (snap td r)"
    using GCPV_row_prepared [OF assms r, of 0 r pv] by simp
  then show ?case using Cons.IH [OF ds] by (simp split: sum.splits)
qed

lemma snap_kind:
  assumes "well_formed n td" and "r \<in> set td"
  shows "length (snap td r) = n" and "map IsFloat (snap td r) = map IsFloat r"
proof -
  have lr: "length r = n" using well_formed_length [OF assms] .
  show "length (snap td r) = n" using lr by (simp add: snap_def)
  show "map IsFloat (snap td r) = map IsFloat r"
  proof (rule nth_equalityI)
    show "length (map IsFloat (snap td r)) = length (map IsFloat r)" by (simp add: snap_def)
  next
    fix i assume "i < length (map IsFloat (snap td r))"
    then have i: "i < length r" by (simp add: snap_def)
    with lr have "i < n" by simp
    from cell_hit [OF assms this] obtain k where
      "first_hit (r ! i) (candidates_of td i) = Some k"
      "IsFloat (candidates_of td i ! k) = IsFloat (r ! i)" by blast
    then show "map IsFloat (snap td r) ! i = map IsFloat r ! i"
      using i by (simp add: snap_def snap_cell_def)
  qed
qed

lemma snapped_well_formed:
  assumes "well_formed n td" and "set ds \<subseteq> set td"
  shows "well_formed n (map (snap td) ds)"
  unfolding well_formed_def
proof (intro ballI conjI)
  fix s assume "s \<in> set (map (snap td) ds)"
  then obtain r where r: "r \<in> set ds" "s = snap td r" by auto
  with assms(2) have rt: "r \<in> set td" by auto
  show "length s = n" using snap_kind(1) [OF assms(1) rt] r(2) by simp
  fix s' assume "s' \<in> set (map (snap td) ds)"
  then obtain r' where r': "r' \<in> set ds" "s' = snap td r'" by auto
  with assms(2) have rt': "r' \<in> set td" by auto
  have "map IsFloat r' = map IsFloat r"
    using assms(1) rt rt' unfolding well_formed_def by blast
  then show "map IsFloat s' = map IsFloat s"
    using snap_kind(2) [OF assms(1) rt] snap_kind(2) [OF assms(1) rt'] r(2) r'(2) by simp
qed

text \<open>The local candidates that \<open>GetChildPossibleValues\<close> leaves for column \<open>j\<close> of a subset.\<close>

fun local_finished :: "container \<Rightarrow> container" where
  "local_finished (ListC xs) = ListC (sort_key num_of (remdups xs))"
| "local_finished c = c"

definition local_candidates :: "dataset \<Rightarrow> dataset \<Rightarrow> nat \<Rightarrow> container" where
  "local_candidates td ds j = local_finished (gathered (column (map (snap td) ds) j))"

lemma GCPV_finish_gathered:
  assumes "list_all IsFloat xs \<or> list_all (\<lambda>v. \<not> IsFloat v) xs"
  shows "GCPV_finish (gathered xs) = Inr (local_finished (gathered xs))"
proof (cases "xs = []")
  case True
  then show ?thesis by (simp add: gathered_def)
next
  case False
  show ?thesis
  proof (cases "IsFloat (hd xs)")
    case True
    with False assms have "list_all IsFloat xs" by (cases xs) auto
    then show ?thesis
      using False True by (simp add: gathered_def sorted_unique_floats)
  next
    case f: False
    then show ?thesis using False by (simp add: gathered_def)
  qed
qed

lemma GetChildPossibleValues_prepared:
  assumes "prepared self td" and "set ds \<subseteq> set td"
  shows "GetChildPossibleValues self ds =
           Inr (map (local_candidates td ds) [0..<length (AttributeNames self)])"
proof -
  let ?n = "length (AttributeNames self)"
  let ?sd = "map (snap td) ds"
  from assms(1) have wf: "well_formed ?n td" by (simp add: prepared_def)
  have swf: "well_formed ?n ?sd" using wf assms(2) by (rule snapped_well_formed)
  have rows: "GCPV_rows self (replicate ?n NoneC) ds
      = Inr (map (\<lambda>j. gathered (column ?sd j)) [0..<?n])"
    using GCPV_rows_prepared [OF assms] GPV_rows_well_formed [OF swf] by simp
  have "\<forall>c\<in>set (map (\<lambda>j. gathered (column ?sd j)) [0..<?n]).
          GCPV_finish c = Inr (local_finished c)"
    using GCPV_finish_gathered [OF well_formed_column [OF swf]] by auto
  then have "map_result GCPV_finish (map (\<lambda>j. gathered (column ?sd j)) [0..<?n])
      = Inr (map local_finished (map (\<lambda>j. gathered (column ?sd j)) [0..<?n]))"
    by (rule map_result_map)
  then show ?thesis
    by (simp add: GetChildPossibleValues_def rows local_candidates_def comp_def)
qed

section \<open>Claims about CreateTreeRecursive: a pure subset\<close>

lemma insert_all_replicate: "insert_all [v] (replicate m v) = [v]"
  by (induction m) simp_all

lemma remdups_replicate_Suc: "remdups (replicate (Suc m) v) = [v]"
  by (induction m) simp_all

lemma gathered_replicate:
  "0 < m \<Longrightarrow> elements (local_finished (gathered (replicate m v))) = [v]
            \<and> local_finished (gathered (replicate m v)) \<noteq> NoneC"
proof -
  assume "0 < m"
  then obtain m' where m: "m = Suc m'" by (cases m) auto
  show ?thesis
  proof (cases "IsFloat v")
    case True
    then show ?thesis using m by (simp add: gathered_def remdups_replicate_Suc del: replicate_Suc remdups.simps)
  next
    case False
    then show ?thesis using m by (simp add: gathered_def insert_all_replicate)
  qed
qed

lemma CalculateCounts_loop_same:
  "\<forall>r\<in>set ds. r \<noteq> [] \<and> last r = l \<Longrightarrow>
   CalculateCounts_loop [(l, k)] ds = Inr [(l, k + length ds)]"
  by (induction ds arbitrary: k) (simp_all add: py_index_last)

lemma CalculateCounts_same:
  assumes "ds \<noteq> []" and "\<forall>r\<in>set ds. r \<noteq> [] \<and> last r = l"
  shows "CalculateCounts ds = Inr [(l, length ds)]"
proof (cases ds)
  case Nil
  with assms show ?thesis by simp
next
  case (Cons r rest)
  with assms(2) have r: "r \<noteq> []" "last r = l" and rest: "\<forall>r\<in>set rest. r \<noteq> [] \<and> last r = l"
    by auto
  show ?thesis
    using r CalculateCounts_loop_same [OF rest, of 1] Cons
    by (simp add: CalculateCounts_def py_index_last)
qed

text \<open>
  C4. On a prepared object, for a non-empty subset of the training data in which every row
  has the same last element, the recursive build returns a leaf whose counts hold exactly
  one key, that label, with the number of rows of the subset; it needs one unit of fuel
  and leaves the object as it was. No Gini value is computed on the way, so this holds
  for every \<open>gini\<close>.
\<close>

theorem CreateTreeRecursive_pure_leaf:
  assumes "prepared self td" and "ds \<noteq> []" and "set ds \<subseteq> set td"
    and "\<forall>r\<in>set ds. last r = label"
  shows "CreateTreeRecursive gini (Suc fuel) self (Some ds) aDepth =
           Some (Inr (LeafNode [(label, length ds)] aDepth, self))"
proof -
  let ?n = "length (AttributeNames self)"
  let ?uv = "map (local_candidates td ds) [0..<?n]"
  from assms(1) have wf: "well_formed ?n td" and n: "0 < ?n" by (simp_all add: prepared_def)
  have rows: "\<forall>r\<in>set ds. length r = ?n"
    using well_formed_length [OF wf] assms(3) by blast
  then have ne: "\<forall>r\<in>set ds. r \<noteq> [] \<and> last r = label" using n assms(4) by auto
  have g: "GetChildPossibleValues self ds = Inr ?uv"
    using assms(1,3) by (rule GetChildPossibleValues_prepared)
  let ?v = "snap_cell (candidates_of td (?n - 1)) label"
  have cell: "snap td r ! (?n - 1) = ?v" if "r \<in> set ds" for r
  proof -
    have "length r = ?n" using rows that by simp
    moreover have "r ! (?n - 1) = label"
      using ne that \<open>length r = ?n\<close> by (metis last_conv_nth)
    ultimately show ?thesis using n by (simp add: snap_def)
  qed
  have col: "column (map (snap td) ds) (?n - 1) = replicate (length ds) ?v"
    using cell by (intro replicate_eqI) (auto simp: column_def)
  have lc: "local_candidates td ds (?n - 1) = local_finished (gathered (replicate (length ds) ?v))"
    by (simp only: local_candidates_def col)
  have pos: "0 < length ds" using assms(2) by simp
  have lastuv: "last ?uv = local_candidates td ds (?n - 1)"
    using n by (simp add: last_conv_nth)
  have uvne: "?uv \<noteq> []" using n by simp
  have "py_len (last ?uv) = Inr 1"
    using gathered_replicate [OF pos, of ?v] unfolding lastuv lc
    by (cases "local_finished (gathered (replicate (length ds) ?v))") simp_all
  then have cs: "CanSplit ds ?uv (GlobalUniqueValues self) = Inr False"
    using py_index_last [OF uvne] by (simp add: CanSplit_def)
  have cc: "CalculateCounts ds = Inr [(label, length ds)]"
    using assms(2) ne by (rule CalculateCounts_same)
  show ?thesis by (simp add: g cs cc)
qed

theorem CreateTreeRecursive_pure_leaf_witness:
  "\<exists>t. CreateTree GiniIndex 1
          \<lparr>TrainingData = [[Str ''Green'', Num 3, Str ''Yes''], [Str ''Red'', Num 1, Str ''Yes'']],
           Root = None, AttributeNames = [''Color'', ''Size'', ''Label''], Depth = 0,
           GlobalUniqueValues = [], GlobalQuestions = []\<rparr> = Some (Inr t)
      \<and> Root t = Some (LeafNode [(Str ''Yes'', 2)] 0)"
proof -
  let ?td = "[[Str ''Green'', Num 3, Str ''Yes''], [Str ''Red'', Num 1, Str ''Yes'']]"
  let ?self = "\<lparr>TrainingData = ?td, Root = None, AttributeNames = [''Color'', ''Size'', ''Label''],
           Depth = 0, GlobalUniqueValues = [], GlobalQuestions = []\<rparr>"
  have "\<exists>self1. prepared self1 (TrainingData ?self) \<and> TrainingData self1 = TrainingData ?self
           \<and> GetPossibleValues ?self (TrainingData ?self) = Inr (GlobalUniqueValues self1)
           \<and> GetQuestions (?self\<lparr>GlobalUniqueValues := GlobalUniqueValues self1\<rparr>) = Inr self1
           \<and> CreateTree GiniIndex 1 ?self =
               (case CreateTreeRecursive GiniIndex 1 self1 (Some (TrainingData ?self)) 0 of
                  None \<Rightarrow> None
                | Some (Inl e) \<Rightarrow> Some (Inl e)
                | Some (Inr (t, self2)) \<Rightarrow> Some (Inr (self2\<lparr>Root := Some t\<rparr>)))"
    by (rule CreateTree_prepared) (simp_all add: well_formed_def)
  then obtain self1 where p: "prepared self1 ?td"
    and c: "CreateTree GiniIndex 1 ?self =
               (case CreateTreeRecursive GiniIndex 1 self1 (Some ?td) 0 of
                  None \<Rightarrow> None
                | Some (Inl e) \<Rightarrow> Some (Inl e)
                | Some (Inr (t, self2)) \<Rightarrow> Some (Inr (self2\<lparr>Root := Some t\<rparr>)))"
    by auto
  have "CreateTreeRecursive GiniIndex (Suc 0) self1 (Some ?td) 0 =
           Some (Inr (LeafNode [(Str ''Yes'', length ?td)] 0, self1))"
    by (rule CreateTreeRecursive_pure_leaf [OF p]) simp_all
  with c show ?thesis by simp
qed

section \<open>FindBestSplit\<close>

text \<open>The Gini value of an attribute in exact arithmetic (lines 425-436).\<close>

definition gini_value :: "dataset \<Rightarrow> container list \<Rightarrow> nat \<Rightarrow> real" where
  "gini_value ds uv a = sum_list (map (gini_term ds a) (elements (uv ! a)))"

text \<open>The number that the computation of line 412 returns for an attribute.\<close>

definition computed ::
  "(dataset \<Rightarrow> nat \<Rightarrow> container list \<Rightarrow> real result) \<Rightarrow> dataset \<Rightarrow> container list \<Rightarrow> nat \<Rightarrow> real" where
  "computed gini ds uv a = (case gini ds a uv of Inl e \<Rightarrow> 0 | Inr g \<Rightarrow> g)"

text \<open>
  One round of the loop of lines 409-416 on the pair \<^verbatim>\<open>(bestInfo, bestAttribute)\<close>, with
  \<open>v a\<close> the value computed for attribute \<open>a\<close>.
\<close>

definition best_step :: "(nat \<Rightarrow> real) \<Rightarrow> container list \<Rightarrow> nat \<Rightarrow> real \<times> int \<Rightarrow> real \<times> int" where
  "best_step v uv a b =
     (if length (elements (uv ! a)) = 1 then b
      else if v a < fst b then (v a, int a) else b)"

lemma FindBestSplit_loop_fold:
  assumes "\<forall>a\<in>set as. a < length uv \<and> uv ! a \<noteq> NoneC
             \<and> (length (elements (uv ! a)) \<noteq> 1 \<longrightarrow> gini ds a uv = Inr (v a))"
  shows "FindBestSplit_loop gini ds uv best ba as = Inr (fold (best_step v uv) as (best, ba))"
  using assms
proof (induction as arbitrary: best ba)
  case Nil
  then show ?case by simp
next
  case (Cons a as)
  from Cons.prems have a: "a < length uv" "uv ! a \<noteq> NoneC"
      "length (elements (uv ! a)) \<noteq> 1 \<longrightarrow> gini ds a uv = Inr (v a)"
    and rest: "\<forall>a\<in>set as. a < length uv \<and> uv ! a \<noteq> NoneC
             \<and> (length (elements (uv ! a)) \<noteq> 1 \<longrightarrow> gini ds a uv = Inr (v a))"
    by auto
  from a(2) obtain es where es: "uv ! a = ListC es \<or> uv ! a = SetC es"
    by (cases "uv ! a") auto
  then have el: "elements (uv ! a) = es" and pl: "py_len (uv ! a) = Inr (length es)" by auto
  show ?case
  proof (cases "length es = 1")
    case True
    then show ?thesis
      using a(1) Cons.IH [OF rest] by (simp add: py_index_nat pl best_step_def el)
  next
    case False
    with a(3) el have g: "gini ds a uv = Inr (v a)" by simp
    show ?thesis
      using False a(1) Cons.IH [OF rest] by (simp add: py_index_nat pl g best_step_def el)
  qed
qed

text \<open>The attributes that the loop does not skip, in the order of the loop.\<close>

definition considered :: "container list \<Rightarrow> nat list \<Rightarrow> nat list" where
  "considered uv as = filter (\<lambda>a. length (elements (uv ! a)) \<noteq> 1) as"

lemma fold_best_step:
  assumes "sorted as" and "distinct as"
  shows "\<exists>g i. fold (best_step v uv) as (best, ba) = (g, i) \<and> g \<le> best
           \<and> (\<forall>a\<in>set (considered uv as). g \<le> v a)
           \<and> ((g = best \<and> i = ba) \<or>
               (g < best \<and> (\<exists>a\<in>set (considered uv as). i = int a \<and> v a = g
                   \<and> (\<forall>b\<in>set (considered uv as). v b = g \<longrightarrow> a \<le> b))))"
  using assms
proof (induction as arbitrary: best ba)
  case Nil
  then show ?case by (simp add: considered_def)
next
  case (Cons a as)
  from Cons.prems have s: "sorted as" "distinct as" by simp_all
  have lt: "\<forall>b\<in>set as. a < b"
  proof
    fix b assume b: "b \<in> set as"
    with Cons.prems have "a \<le> b" and "a \<noteq> b" by auto
    then show "a < b" by simp
  qed
  let ?C = "considered uv as"
  have sub: "set ?C \<subseteq> set as" by (auto simp: considered_def)
  show ?case
  proof (cases "length (elements (uv ! a)) \<noteq> 1 \<and> v a < best")
    case True
    from Cons.IH [OF s, of "v a" "int a"] obtain g i where
      f: "fold (best_step v uv) as (v a, int a) = (g, i)"
      and le: "g \<le> v a"
      and all: "\<forall>b\<in>set ?C. g \<le> v b"
      and d: "(g = v a \<and> i = int a) \<or>
               (g < v a \<and> (\<exists>c\<in>set ?C. i = int c \<and> v c = g
                   \<and> (\<forall>b\<in>set ?C. v b = g \<longrightarrow> c \<le> b)))"
      by blast
    have C: "considered uv (a # as) = a # ?C" using True by (simp add: considered_def)
    have st: "fold (best_step v uv) (a # as) (best, ba) = (g, i)"
      using True f by (simp add: best_step_def)
    have gb: "g < best" using le True by simp
    from d have "\<exists>c\<in>set (a # ?C). i = int c \<and> v c = g
                   \<and> (\<forall>b\<in>set (a # ?C). v b = g \<longrightarrow> c \<le> b)"
    proof
      assume "g = v a \<and> i = int a"
      moreover have "\<forall>b\<in>set ?C. a \<le> b" using lt sub by (auto intro: less_imp_le)
      ultimately show ?thesis by auto
    next
      assume "g < v a \<and> (\<exists>c\<in>set ?C. i = int c \<and> v c = g
                   \<and> (\<forall>b\<in>set ?C. v b = g \<longrightarrow> c \<le> b))"
      then show ?thesis by auto
    qed
    with st gb le all show ?thesis unfolding C by auto
  next
    case False
    from Cons.IH [OF s, of best ba] obtain g i where
      f: "fold (best_step v uv) as (best, ba) = (g, i)"
      and le: "g \<le> best"
      and all: "\<forall>b\<in>set ?C. g \<le> v b"
      and d: "(g = best \<and> i = ba) \<or>
               (g < best \<and> (\<exists>c\<in>set ?C. i = int c \<and> v c = g
                   \<and> (\<forall>b\<in>set ?C. v b = g \<longrightarrow> c \<le> b)))"
      by blast
    have st: "fold (best_step v uv) (a # as) (best, ba) = (g, i)"
      using False f by (auto simp: best_step_def)
    show ?thesis
    proof (cases "length (elements (uv ! a)) = 1")
      case True
      then have C: "considered uv (a # as) = ?C" by (simp add: considered_def)
      from st le all d show ?thesis unfolding C by blast
    next
      case ne: False
      with False have ge: "best \<le> v a" by simp
      have C: "considered uv (a # as) = a # ?C" using ne by (simp add: considered_def)
      have all': "\<forall>b\<in>set (a # ?C). g \<le> v b" using all le ge by auto
      from d have "(g = best \<and> i = ba) \<or>
               (g < best \<and> (\<exists>c\<in>set (a # ?C). i = int c \<and> v c = g
                   \<and> (\<forall>b\<in>set (a # ?C). v b = g \<longrightarrow> c \<le> b)))"
      proof
        assume "g = best \<and> i = ba"
        then show ?thesis by simp
      next
        assume h: "g < best \<and> (\<exists>c\<in>set ?C. i = int c \<and> v c = g
                   \<and> (\<forall>b\<in>set ?C. v b = g \<longrightarrow> c \<le> b))"
        then have "v a \<noteq> g" using ge by auto
        with h show ?thesis by auto
      qed
      with st le all' show ?thesis unfolding C by blast
    qed
  qed
qed

lemma insert_all_nonempty: "xs \<noteq> [] \<Longrightarrow> insert_all [] xs \<noteq> []"
  using set_insert_all [of "[]" xs] by (metis empty_set set_empty sup_bot.left_neutral)

lemma local_candidates_shape:
  assumes "prepared self td" and "ds \<noteq> []" and "set ds \<subseteq> set td"
    and "j < length (AttributeNames self)"
  shows "\<exists>es. (local_candidates td ds j = ListC es \<or> local_candidates td ds j = SetC es)
           \<and> es \<noteq> [] \<and> distinct es"
proof -
  let ?n = "length (AttributeNames self)"
  let ?col = "column (map (snap td) ds) j"
  from assms(1) have wf: "well_formed ?n td" by (simp add: prepared_def)
  have swf: "well_formed ?n (map (snap td) ds)" using wf assms(3) by (rule snapped_well_formed)
  have ne: "?col \<noteq> []" using assms(2) by (simp add: column_def)
  from well_formed_column [OF swf assms(4)]
  show ?thesis
  proof
    assume fl: "list_all IsFloat ?col"
    then have g: "gathered ?col = ListC ?col" using ne by (cases ?col) (simp_all add: gathered_def)
    have "set (sort_key num_of (remdups ?col)) = set ?col" by simp
    with ne have "sort_key num_of (remdups ?col) \<noteq> []" by (metis set_empty)
    moreover have "distinct (sort_key num_of (remdups ?col))" by simp
    ultimately show ?thesis by (simp add: local_candidates_def g)
  next
    assume st: "list_all (\<lambda>v. \<not> IsFloat v) ?col"
    then have g: "gathered ?col = SetC (insert_all [] ?col)"
      using ne by (cases ?col) (simp_all add: gathered_def)
    have "distinct (insert_all [] ?col)" by (rule distinct_insert_all) simp
    with insert_all_nonempty [OF ne] show ?thesis by (simp add: local_candidates_def g)
  qed
qed

text \<open>
  The loop on candidates of the shape that \<open>GetChildPossibleValues\<close> leaves, when the
  computation returns a number below the initial 2.0 for every attribute that is not
  skipped.
\<close>

lemma FindBestSplit_general:
  assumes "ds \<noteq> []" and "\<forall>r\<in>set ds. length r = n"
    and "\<forall>a<n - 1. a < length uv \<and>
           (\<exists>es. (uv ! a = ListC es \<or> uv ! a = SetC es) \<and> es \<noteq> [] \<and> distinct es)"
    and "\<forall>a<n - 1. 1 < length (elements (uv ! a)) \<longrightarrow> gini ds a uv = Inr (v a) \<and> v a < 2"
  shows "\<exists>g i. FindBestSplit gini ds uv = Inr (g, i)
     \<and> ((\<forall>a<n - 1. length (elements (uv ! a)) \<le> 1) \<longrightarrow> g = 2 \<and> i = - 1)
     \<and> ((\<exists>a<n - 1. 1 < length (elements (uv ! a))) \<longrightarrow>
          0 \<le> i \<and> nat i < n - 1 \<and> 1 < length (elements (uv ! nat i))
          \<and> g = v (nat i) \<and> g < 2
          \<and> (\<forall>b<n - 1. 1 < length (elements (uv ! b)) \<longrightarrow>
                g \<le> v b \<and> (v b = g \<longrightarrow> nat i \<le> b)))"
proof -
  let ?as = "[0..<n - 1]"
  have r0: "py_index ds 0 = Inr (ds ! 0)" and l0: "length (ds ! 0) = n"
    using assms(1,2) by (simp_all add: py_index_def)
  have pos: "0 < length (elements (uv ! a))" if "a < n - 1" for a
    using assms(3) that by fastforce
  have more: "length (elements (uv ! a)) \<noteq> 1 \<longleftrightarrow> 1 < length (elements (uv ! a))"
    if "a < n - 1" for a
    using pos [OF that] by (metis less_one linorder_neqE_nat not_less_iff_gr_or_eq)
  have ok: "\<forall>a\<in>set ?as. a < length uv \<and> uv ! a \<noteq> NoneC
             \<and> (length (elements (uv ! a)) \<noteq> 1 \<longrightarrow> gini ds a uv = Inr (v a))"
  proof
    fix a assume "a \<in> set ?as"
    then have a: "a < n - 1" by simp
    from assms(3) a have "a < length uv" "uv ! a \<noteq> NoneC" by auto
    moreover have "length (elements (uv ! a)) \<noteq> 1 \<longrightarrow> gini ds a uv = Inr (v a)"
      using assms(4) a more [OF a] by blast
    ultimately show "a < length uv \<and> uv ! a \<noteq> NoneC
             \<and> (length (elements (uv ! a)) \<noteq> 1 \<longrightarrow> gini ds a uv = Inr (v a))" by blast
  qed
  have loop: "FindBestSplit gini ds uv = Inr (fold (best_step v uv) ?as (2, - 1))"
    using FindBestSplit_loop_fold [where gini = gini and v = v, OF ok] by (simp add: FindBestSplit_def r0 l0)
  have C: "a \<in> set (considered uv ?as) \<longleftrightarrow> a < n - 1 \<and> 1 < length (elements (uv ! a))" for a
    using more unfolding considered_def by auto
  have lt2: "v a < 2" if "a < n - 1" and "1 < length (elements (uv ! a))" for a
    using assms(4) that by blast
  from fold_best_step [of ?as v uv 2 "- 1"] obtain g i where
    f: "fold (best_step v uv) ?as (2, - 1) = (g, i)"
    and all: "\<forall>a\<in>set (considered uv ?as). g \<le> v a"
    and d: "(g = 2 \<and> i = - 1) \<or>
               (g < 2 \<and> (\<exists>a\<in>set (considered uv ?as). i = int a \<and> v a = g
                   \<and> (\<forall>b\<in>set (considered uv ?as). v b = g \<longrightarrow> a \<le> b)))"
    by auto
  have none: "g = 2 \<and> i = - 1" if "\<forall>a<n - 1. length (elements (uv ! a)) \<le> 1"
  proof -
    have "a \<notin> set (considered uv ?as)" for a
    proof
      assume "a \<in> set (considered uv ?as)"
      then have "a < n - 1" "1 < length (elements (uv ! a))" using C by blast+
      with that show False by (metis not_le)
    qed
    with d show ?thesis by blast
  qed
  have some: "0 \<le> i \<and> nat i < n - 1 \<and> 1 < length (elements (uv ! nat i))
          \<and> g = v (nat i) \<and> g < 2
          \<and> (\<forall>b<n - 1. 1 < length (elements (uv ! b)) \<longrightarrow>
                g \<le> v b \<and> (v b = g \<longrightarrow> nat i \<le> b))"
    if "\<exists>a<n - 1. 1 < length (elements (uv ! a))"
  proof -
    from that obtain a where a: "a \<in> set (considered uv ?as)" using C by blast
    then have "g \<le> v a" using all by blast
    moreover have "v a < 2" using a C lt2 by blast
    ultimately have g2: "g < 2" by linarith
    with d obtain c where c: "c \<in> set (considered uv ?as)" "i = int c" "v c = g"
      "\<forall>b\<in>set (considered uv ?as). v b = g \<longrightarrow> c \<le> b" by auto
    with g2 all C show ?thesis by auto
  qed
  from loop f have e: "FindBestSplit gini ds uv = Inr (g, i)" by simp
  show ?thesis
  proof (intro exI [of _ g] exI [of _ i] conjI)
    show "FindBestSplit gini ds uv = Inr (g, i)" by (rule e)
    show "(\<forall>a<n - 1. length (elements (uv ! a)) \<le> 1) \<longrightarrow> g = 2 \<and> i = - 1"
    proof (rule impI)
      assume x: "\<forall>a<n - 1. length (elements (uv ! a)) \<le> 1"
      show "g = 2 \<and> i = - 1" by (rule none [OF x])
    qed
    show "(\<exists>a<n - 1. 1 < length (elements (uv ! a))) \<longrightarrow>
          0 \<le> i \<and> nat i < n - 1 \<and> 1 < length (elements (uv ! nat i))
          \<and> g = v (nat i) \<and> g < 2
          \<and> (\<forall>b<n - 1. 1 < length (elements (uv ! b)) \<longrightarrow>
                g \<le> v b \<and> (v b = g \<longrightarrow> nat i \<le> b))"
    proof (rule impI)
      assume x: "\<exists>a<n - 1. 1 < length (elements (uv ! a))"
      show "0 \<le> i \<and> nat i < n - 1 \<and> 1 < length (elements (uv ! nat i))
          \<and> g = v (nat i) \<and> g < 2
          \<and> (\<forall>b<n - 1. 1 < length (elements (uv ! b)) \<longrightarrow>
                g \<le> v b \<and> (v b = g \<longrightarrow> nat i \<le> b))"
        by (rule some [OF x])
    qed
  qed
qed

lemma py_len_elements: "c \<noteq> NoneC \<Longrightarrow> py_len c = Inr (length (elements c))"
  by (cases c) simp_all

text \<open>
  On the local candidates of a non-empty subset of the training data the exact Gini value
  is at most 1, so a computation that approximates it returns a number below 2.
\<close>

lemma computed_below_sentinel:
  assumes "prepared self td" and "ds \<noteq> []" and "set ds \<subseteq> set td"
    and "a < length (AttributeNames self)" and "approximates gini"
  shows "gini ds a (map (local_candidates td ds) [0..<length (AttributeNames self)])
           = Inr (computed gini ds (map (local_candidates td ds) [0..<length (AttributeNames self)]) a)
       \<and> computed gini ds (map (local_candidates td ds) [0..<length (AttributeNames self)]) a < 2"
proof -
  let ?n = "length (AttributeNames self)"
  let ?uv = "map (local_candidates td ds) [0..<?n]"
  from assms(1) have wf: "well_formed ?n td" by (simp add: prepared_def)
  have rows: "\<forall>r\<in>set ds. a < length r"
    using well_formed_length [OF wf] assms(3,4) by fastforce
  from local_candidates_shape [OF assms(1-4)] obtain es where
    es: "?uv ! a = ListC es \<or> ?uv ! a = SetC es" "distinct es"
    using assms(4) by auto
  have "a < length ?uv" using assms(4) by simp
  from GiniIndex_bounds [OF rows this es assms(2)] obtain x where
    x: "GiniIndex ds a ?uv = Inr x" "x \<le> 1" by blast
  from assms(5) have "case GiniIndex ds a ?uv of Inl e \<Rightarrow> gini ds a ?uv = Inl e
        | Inr x \<Rightarrow> (\<exists>g. gini ds a ?uv = Inr g \<and> \<bar>g - x\<bar> < 1)"
    unfolding approximates_def by blast
  with x(1) obtain g where g: "gini ds a ?uv = Inr g" "\<bar>g - x\<bar> < 1" by auto
  from g(2) x(2) have "g < 2" by linarith
  with g(1) show ?thesis by (simp add: computed_def)
qed

text \<open>
  A data set on which the exact Gini values of the two attributes tie at 1/3 and the
  doubles do not: lines 432-434 give 0.33333333333333337, that is 3002399751580331 / 2^53,
  for attribute 0 and 0.3333333333333333, that is 6004799503160661 / 2^54, for
  attribute 1. \<open>tie_doubles\<close> returns these two numbers there and the exact value elsewhere.
\<close>

definition tie_rows :: dataset where
  "tie_rows = [[Num 1, Num 1, Str ''Yes''], [Num 1, Num 1, Str ''No''],
               [Num 1, Num 2, Str ''Yes''], [Num 2, Num 1, Str ''No'']]"

definition tie_candidates :: "container list" where
  "tie_candidates = [ListC [Num 1, Num 2], ListC [Num 1, Num 2], SetC [Str ''Yes'', Str ''No'']]"

definition tie_doubles :: "dataset \<Rightarrow> nat \<Rightarrow> container list \<Rightarrow> real result" where
  "tie_doubles ds a uv =
     (if ds = tie_rows \<and> uv = tie_candidates \<and> a = 0
      then Inr (3002399751580331 / 9007199254740992)
      else if ds = tie_rows \<and> uv = tie_candidates \<and> a = 1
      then Inr (6004799503160661 / 18014398509481984)
      else GiniIndex ds a uv)"

lemma approximates_GiniIndex: "approximates GiniIndex"
  by (simp add: approximates_def split: sum.split)

lemma tie_doubles_values:
  "tie_doubles tie_rows 0 tie_candidates = Inr (3002399751580331 / 9007199254740992)"
  "tie_doubles tie_rows 1 tie_candidates = Inr (6004799503160661 / 18014398509481984)"
  by (simp_all add: tie_doubles_def)

lemma approximates_tie_doubles: "approximates tie_doubles"
proof -
  have e0: "GiniIndex tie_rows 0 tie_candidates = Inr (1 / 3)" by code_simp
  have e1: "GiniIndex tie_rows 1 tie_candidates = Inr (1 / 3)" by code_simp
  have c0: "\<exists>g. tie_doubles tie_rows 0 tie_candidates = Inr g \<and> \<bar>g - 1 / 3\<bar> < 1"
  proof (intro exI conjI)
    show "tie_doubles tie_rows 0 tie_candidates = Inr (3002399751580331 / 9007199254740992)"
      by (rule tie_doubles_values)
    show "\<bar>3002399751580331 / 9007199254740992 - 1 / 3\<bar> < (1 :: real)" by simp
  qed
  have c1: "\<exists>g. tie_doubles tie_rows 1 tie_candidates = Inr g \<and> \<bar>g - 1 / 3\<bar> < 1"
  proof (intro exI conjI)
    show "tie_doubles tie_rows 1 tie_candidates = Inr (6004799503160661 / 18014398509481984)"
      by (rule tie_doubles_values)
    show "\<bar>6004799503160661 / 18014398509481984 - 1 / 3\<bar> < (1 :: real)" by simp
  qed
  show ?thesis
    unfolding approximates_def
  proof (intro allI)
    fix ds a uv
    show "case GiniIndex ds a uv of Inl e \<Rightarrow> tie_doubles ds a uv = Inl e
          | Inr x \<Rightarrow> \<exists>g. tie_doubles ds a uv = Inr g \<and> \<bar>g - x\<bar> < 1"
    proof (cases "ds = tie_rows \<and> uv = tie_candidates \<and> (a = 0 \<or> a = 1)")
      case True
      then have d: "ds = tie_rows" "uv = tie_candidates" and a: "a = 0 \<or> a = 1" by auto
      from a show ?thesis
      proof
        assume "a = 0"
        then show ?thesis unfolding d using c0 by (simp only: e0 sum.case)
      next
        assume "a = 1"
        then show ?thesis unfolding d using c1 by (simp only: e1 sum.case)
      qed
    next
      case False
      then have "tie_doubles ds a uv = GiniIndex ds a uv" by (auto simp: tie_doubles_def)
      then show ?thesis by (simp split: sum.split)
    qed
  qed
qed

section \<open>Claims about FindBestSplit\<close>

text \<open>
  C6. On a prepared object, for a non-empty subset of the training data and the local
  candidates \<open>uv\<close> that \<open>GetChildPossibleValues\<close> returns for it, and for Gini values computed
  as \<open>gini\<close> computes them, \<open>FindBestSplit\<close> returns a pair \<open>(g, i)\<close>. When no attribute
  before the label has more than one local candidate the pair is the initial \<open>(2.0, -1)\<close>.
  Otherwise \<open>i\<close> is an attribute before the label with more than one local candidate, \<open>g\<close>
  is the Gini value computed for it and lies below the sentinel 2.0, no attribute with
  more than one local candidate has a smaller computed value, and every such attribute
  with the same computed value has an index of at least \<open>i\<close>. The minimum and the ties are
  those of the computed values: two attributes whose exact values are equal tie only when
  their computed values are equal too.
\<close>

theorem FindBestSplit_minimum:
  assumes "prepared self td" and "ds \<noteq> []" and "set ds \<subseteq> set td"
    and "GetChildPossibleValues self ds = Inr uv" and "approximates gini"
  shows "\<exists>g i. FindBestSplit gini ds uv = Inr (g, i)
     \<and> ((\<forall>a<length (AttributeNames self) - 1. \<not> (\<exists>m>1. py_len (uv ! a) = Inr m))
          \<longrightarrow> g = 2 \<and> i = - 1)
     \<and> ((\<exists>a<length (AttributeNames self) - 1. \<exists>m>1. py_len (uv ! a) = Inr m) \<longrightarrow>
          0 \<le> i \<and> nat i < length (AttributeNames self) - 1
          \<and> (\<exists>m>1. py_len (uv ! nat i) = Inr m)
          \<and> gini ds (nat i) uv = Inr g \<and> g < 2
          \<and> (\<forall>b<length (AttributeNames self) - 1. (\<exists>m>1. py_len (uv ! b) = Inr m) \<longrightarrow>
                (\<exists>gb. gini ds b uv = Inr gb \<and> g \<le> gb \<and> (gb = g \<longrightarrow> nat i \<le> b))))"
proof -
  let ?n = "length (AttributeNames self)"
  let ?v = "computed gini ds uv"
  from assms(1) have wf: "well_formed ?n td" by (simp add: prepared_def)
  have uv: "uv = map (local_candidates td ds) [0..<?n]"
    using GetChildPossibleValues_prepared [OF assms(1,3)] assms(4) by simp
  have rows: "\<forall>r\<in>set ds. length r = ?n"
    using well_formed_length [OF wf] assms(3) by blast
  have shape: "\<exists>es. (uv ! a = ListC es \<or> uv ! a = SetC es) \<and> es \<noteq> [] \<and> distinct es"
    if "a < ?n" for a
    using local_candidates_shape [OF assms(1-3) that] that by (simp add: uv)
  have luv: "length uv = ?n" by (simp add: uv)
  have pre: "\<forall>a<?n - 1. a < length uv \<and>
           (\<exists>es. (uv ! a = ListC es \<or> uv ! a = SetC es) \<and> es \<noteq> [] \<and> distinct es)"
    using shape luv by auto
  have more: "(\<exists>m>1. py_len (uv ! a) = Inr m) \<longleftrightarrow> 1 < length (elements (uv ! a))"
    if "a < ?n - 1" for a
  proof -
    from that have "a < ?n" by simp
    from shape [OF this] have "uv ! a \<noteq> NoneC" by auto
    then show ?thesis by (simp add: py_len_elements)
  qed
  have gini: "gini ds a uv = Inr (?v a) \<and> ?v a < 2" if "a < ?n - 1" for a
  proof -
    from that have "a < ?n" by simp
    from computed_below_sentinel [OF assms(1-3) this assms(5)] show ?thesis
      unfolding uv .
  qed
  then have val: "\<forall>a<?n - 1. 1 < length (elements (uv ! a)) \<longrightarrow>
      gini ds a uv = Inr (?v a) \<and> ?v a < 2" by blast
  from FindBestSplit_general [where gini = gini and v = ?v, OF assms(2) rows pre val] obtain g i where
    e: "FindBestSplit gini ds uv = Inr (g, i)"
    and none: "(\<forall>a<?n - 1. length (elements (uv ! a)) \<le> 1) \<longrightarrow> g = 2 \<and> i = - 1"
    and some: "(\<exists>a<?n - 1. 1 < length (elements (uv ! a))) \<longrightarrow>
          0 \<le> i \<and> nat i < ?n - 1 \<and> 1 < length (elements (uv ! nat i))
          \<and> g = ?v (nat i) \<and> g < 2
          \<and> (\<forall>b<?n - 1. 1 < length (elements (uv ! b)) \<longrightarrow>
                g \<le> ?v b \<and> (?v b = g \<longrightarrow> nat i \<le> b))"
    by blast
  show ?thesis
  proof (intro exI [of _ g] exI [of _ i] conjI)
    show "FindBestSplit gini ds uv = Inr (g, i)" by (rule e)
    show "(\<forall>a<?n - 1. \<not> (\<exists>m>1. py_len (uv ! a) = Inr m)) \<longrightarrow> g = 2 \<and> i = - 1"
    proof (rule impI)
      assume x: "\<forall>a<?n - 1. \<not> (\<exists>m>1. py_len (uv ! a) = Inr m)"
      have "\<forall>a<?n - 1. length (elements (uv ! a)) \<le> 1"
      proof (intro allI impI)
        fix a assume a: "a < ?n - 1"
        with x have "\<not> (\<exists>m>1. py_len (uv ! a) = Inr m)" by blast
        then have "\<not> 1 < length (elements (uv ! a))" using more [OF a] by blast
        then show "length (elements (uv ! a)) \<le> 1" by simp
      qed
      with none show "g = 2 \<and> i = - 1" by blast
    qed
    show "(\<exists>a<?n - 1. \<exists>m>1. py_len (uv ! a) = Inr m) \<longrightarrow>
          0 \<le> i \<and> nat i < ?n - 1 \<and> (\<exists>m>1. py_len (uv ! nat i) = Inr m)
          \<and> gini ds (nat i) uv = Inr g \<and> g < 2
          \<and> (\<forall>b<?n - 1. (\<exists>m>1. py_len (uv ! b) = Inr m) \<longrightarrow>
                (\<exists>gb. gini ds b uv = Inr gb \<and> g \<le> gb \<and> (gb = g \<longrightarrow> nat i \<le> b)))"
    proof (rule impI)
      assume "\<exists>a<?n - 1. \<exists>m>1. py_len (uv ! a) = Inr m"
      then obtain a where a: "a < ?n - 1" "\<exists>m>1. py_len (uv ! a) = Inr m" by blast
      then have "\<exists>a<?n - 1. 1 < length (elements (uv ! a))" using more by blast
      with some have s: "0 \<le> i" "nat i < ?n - 1" "1 < length (elements (uv ! nat i))"
          "g = ?v (nat i)" "g < 2"
          "\<forall>b<?n - 1. 1 < length (elements (uv ! b)) \<longrightarrow>
                g \<le> ?v b \<and> (?v b = g \<longrightarrow> nat i \<le> b)"
        by blast+
      have m: "\<exists>m>1. py_len (uv ! nat i) = Inr m" using more [OF s(2)] s(3) by blast
      have gi: "gini ds (nat i) uv = Inr g" using gini [OF s(2)] s(4) by simp
      have others: "\<forall>b<?n - 1. (\<exists>m>1. py_len (uv ! b) = Inr m) \<longrightarrow>
                (\<exists>gb. gini ds b uv = Inr gb \<and> g \<le> gb \<and> (gb = g \<longrightarrow> nat i \<le> b))"
      proof (intro allI impI)
        fix b assume b: "b < ?n - 1" and "\<exists>m>1. py_len (uv ! b) = Inr m"
        then have l: "1 < length (elements (uv ! b))" using more by blast
        with s(6) b have "g \<le> ?v b \<and> (?v b = g \<longrightarrow> nat i \<le> b)"
          by blast
        with gini [OF b]
        show "\<exists>gb. gini ds b uv = Inr gb \<and> g \<le> gb \<and> (gb = g \<longrightarrow> nat i \<le> b)"
          by blast
      qed
      from s(1,2,5) m gi others
      show "0 \<le> i \<and> nat i < ?n - 1 \<and> (\<exists>m>1. py_len (uv ! nat i) = Inr m)
          \<and> gini ds (nat i) uv = Inr g \<and> g < 2
          \<and> (\<forall>b<?n - 1. (\<exists>m>1. py_len (uv ! b) = Inr m) \<longrightarrow>
                (\<exists>gb. gini ds b uv = Inr gb \<and> g \<le> gb \<and> (gb = g \<longrightarrow> nat i \<le> b)))"
        by blast
    qed
  qed
qed

theorem FindBestSplit_minimum_witness:
  "(\<exists>g i. FindBestSplit GiniIndex
            [[Str ''Green'', Num 3, Str ''Yes''], [Str ''Red'', Num 1, Str ''No''],
             [Str ''Green'', Num 1, Str ''No'']]
            [SetC [Str ''Green'', Str ''Red''], ListC [Num 1, Num 3],
             SetC [Str ''Yes'', Str ''No'']] = Inr (g, i)
        \<and> 0 \<le> i \<and> nat i < 2 \<and> g < 2
        \<and> GiniIndex
            [[Str ''Green'', Num 3, Str ''Yes''], [Str ''Red'', Num 1, Str ''No''],
             [Str ''Green'', Num 1, Str ''No'']] (nat i)
            [SetC [Str ''Green'', Str ''Red''], ListC [Num 1, Num 3],
             SetC [Str ''Yes'', Str ''No'']] = Inr g)
   \<and> FindBestSplit tie_doubles tie_rows tie_candidates
        = Inr (6004799503160661 / 18014398509481984, 1)"
proof
  let ?td = "[[Str ''Green'', Num 3, Str ''Yes''], [Str ''Red'', Num 1, Str ''No''],
             [Str ''Green'', Num 1, Str ''No'']]"
  let ?uv = "[SetC [Str ''Green'', Str ''Red''], ListC [Num 1, Num 3],
             SetC [Str ''Yes'', Str ''No'']]"
  let ?self = "\<lparr>TrainingData = ?td, Root = None,
      AttributeNames = [''Color'', ''Size'', ''Label''], Depth = 0,
      GlobalUniqueValues = ?uv,
      GlobalQuestions =
        [[\<lparr>Attribute = 0, Value = Str ''Green''\<rparr>, \<lparr>Attribute = 0, Value = Str ''Red''\<rparr>],
         [\<lparr>Attribute = 1, Value = Num 1\<rparr>, \<lparr>Attribute = 1, Value = Num 3\<rparr>],
         [\<lparr>Attribute = 2, Value = Str ''Yes''\<rparr>, \<lparr>Attribute = 2, Value = Str ''No''\<rparr>]]\<rparr>"
  have p: "prepared ?self ?td" by code_simp
  have ne: "?td \<noteq> []" by simp
  have sub: "set ?td \<subseteq> set ?td" by simp
  have g: "GetChildPossibleValues ?self ?td = Inr ?uv" by code_simp
  have m: "\<exists>a<length (AttributeNames ?self) - 1. \<exists>m>1. py_len (?uv ! a) = Inr m"
    by (intro exI [of _ 0]) simp
  from FindBestSplit_minimum [OF p ne sub g approximates_GiniIndex] obtain g i where
    e: "FindBestSplit GiniIndex ?td ?uv = Inr (g, i)"
    and s: "(\<exists>a<length (AttributeNames ?self) - 1. \<exists>m>1. py_len (?uv ! a) = Inr m) \<longrightarrow>
          0 \<le> i \<and> nat i < length (AttributeNames ?self) - 1
          \<and> (\<exists>m>1. py_len (?uv ! nat i) = Inr m)
          \<and> GiniIndex ?td (nat i) ?uv = Inr g \<and> g < 2
          \<and> (\<forall>b<length (AttributeNames ?self) - 1. (\<exists>m>1. py_len (?uv ! b) = Inr m) \<longrightarrow>
                (\<exists>gb. GiniIndex ?td b ?uv = Inr gb \<and> g \<le> gb \<and> (gb = g \<longrightarrow> nat i \<le> b)))"
    by (elim exE conjE)
  from s m have c: "0 \<le> i \<and> nat i < length (AttributeNames ?self) - 1
          \<and> (\<exists>m>1. py_len (?uv ! nat i) = Inr m)
          \<and> GiniIndex ?td (nat i) ?uv = Inr g \<and> g < 2
          \<and> (\<forall>b<length (AttributeNames ?self) - 1. (\<exists>m>1. py_len (?uv ! b) = Inr m) \<longrightarrow>
                (\<exists>gb. GiniIndex ?td b ?uv = Inr gb \<and> g \<le> gb \<and> (gb = g \<longrightarrow> nat i \<le> b)))"
    by (rule mp)
  then have "0 \<le> i" "nat i < 2" "g < 2" "GiniIndex ?td (nat i) ?uv = Inr g" by simp_all
  with e show "\<exists>g i. FindBestSplit GiniIndex ?td ?uv = Inr (g, i)
        \<and> 0 \<le> i \<and> nat i < 2 \<and> g < 2 \<and> GiniIndex ?td (nat i) ?uv = Inr g"
    by (intro exI [of _ g] exI [of _ i]) simp
next
  let ?self = "\<lparr>TrainingData = tie_rows, Root = None,
      AttributeNames = [''A'', ''B'', ''Label''], Depth = 0,
      GlobalUniqueValues = tie_candidates,
      GlobalQuestions =
        [[\<lparr>Attribute = 0, Value = Num 1\<rparr>, \<lparr>Attribute = 0, Value = Num 2\<rparr>],
         [\<lparr>Attribute = 1, Value = Num 1\<rparr>, \<lparr>Attribute = 1, Value = Num 2\<rparr>],
         [\<lparr>Attribute = 2, Value = Str ''Yes''\<rparr>, \<lparr>Attribute = 2, Value = Str ''No''\<rparr>]]\<rparr>"
  let ?d0 = "3002399751580331 / 9007199254740992 :: real"
  let ?d1 = "6004799503160661 / 18014398509481984 :: real"
  have p: "prepared ?self tie_rows" by code_simp
  have ne: "tie_rows \<noteq> []" by (simp add: tie_rows_def)
  have sub: "set tie_rows \<subseteq> set tie_rows" by simp
  have g: "GetChildPossibleValues ?self tie_rows = Inr tie_candidates" by code_simp
  have n: "length (AttributeNames ?self) - 1 = 2" by simp
  have l0: "py_len (tie_candidates ! 0) = Inr 2" and l1: "py_len (tie_candidates ! 1) = Inr 2"
    by (simp_all add: tie_candidates_def)
  have v0: "tie_doubles tie_rows 0 tie_candidates = Inr ?d0"
    and v1: "tie_doubles tie_rows 1 tie_candidates = Inr ?d1"
    by (rule tie_doubles_values)+
  have m: "\<exists>a<length (AttributeNames ?self) - 1. \<exists>m>1. py_len (tie_candidates ! a) = Inr m"
    unfolding n using l0 by (intro exI [of _ 0]) simp
  from FindBestSplit_minimum [OF p ne sub g approximates_tie_doubles] obtain g i where
    e: "FindBestSplit tie_doubles tie_rows tie_candidates = Inr (g, i)"
    and s: "(\<exists>a<length (AttributeNames ?self) - 1. \<exists>m>1. py_len (tie_candidates ! a) = Inr m) \<longrightarrow>
          0 \<le> i \<and> nat i < length (AttributeNames ?self) - 1
          \<and> (\<exists>m>1. py_len (tie_candidates ! nat i) = Inr m)
          \<and> tie_doubles tie_rows (nat i) tie_candidates = Inr g \<and> g < 2
          \<and> (\<forall>b<length (AttributeNames ?self) - 1.
                (\<exists>m>1. py_len (tie_candidates ! b) = Inr m) \<longrightarrow>
                (\<exists>gb. tie_doubles tie_rows b tie_candidates = Inr gb \<and> g \<le> gb
                    \<and> (gb = g \<longrightarrow> nat i \<le> b)))"
    by (elim exE conjE)
  from s m have c: "0 \<le> i \<and> nat i < length (AttributeNames ?self) - 1
          \<and> (\<exists>m>1. py_len (tie_candidates ! nat i) = Inr m)
          \<and> tie_doubles tie_rows (nat i) tie_candidates = Inr g \<and> g < 2
          \<and> (\<forall>b<length (AttributeNames ?self) - 1.
                (\<exists>m>1. py_len (tie_candidates ! b) = Inr m) \<longrightarrow>
                (\<exists>gb. tie_doubles tie_rows b tie_candidates = Inr gb \<and> g \<le> gb
                    \<and> (gb = g \<longrightarrow> nat i \<le> b)))"
    by (rule mp)
  then have i: "0 \<le> i" "nat i < 2" and gi: "tie_doubles tie_rows (nat i) tie_candidates = Inr g"
    and others: "\<forall>b<2. (\<exists>m>1. py_len (tie_candidates ! b) = Inr m) \<longrightarrow>
                (\<exists>gb. tie_doubles tie_rows b tie_candidates = Inr gb \<and> g \<le> gb
                    \<and> (gb = g \<longrightarrow> nat i \<le> b))"
    unfolding n by blast+
  have "\<exists>m>1. py_len (tie_candidates ! 1) = Inr m"
    by (intro exI [of _ 2]) (simp only: l1, simp)
  moreover have "(1 :: nat) < 2" by simp
  moreover from others have "(1 :: nat) < 2 \<longrightarrow>
      (\<exists>m>1. py_len (tie_candidates ! 1) = Inr m) \<longrightarrow>
      (\<exists>gb. tie_doubles tie_rows 1 tie_candidates = Inr gb \<and> g \<le> gb
          \<and> (gb = g \<longrightarrow> nat i \<le> 1))"
    by (rule spec)
  ultimately obtain gb where "tie_doubles tie_rows 1 tie_candidates = Inr gb" "g \<le> gb"
    by blast
  then have le: "g \<le> ?d1" unfolding v1 by blast
  have "nat i \<noteq> 0"
  proof
    assume "nat i = 0"
    with gi v0 have "g = ?d0" by simp
    with le show False by simp
  qed
  with i have i1: "nat i = 1" by linarith
  with gi v1 have "g = ?d1" by simp
  moreover from i1 i(1) have "i = 1" by simp
  ultimately show "FindBestSplit tie_doubles tie_rows tie_candidates = Inr (?d1, 1)"
    using e by simp
qed

section \<open>The questions of a split and their groups\<close>

lemma first_hit_first: "first_hit w cs = Some k \<Longrightarrow> \<forall>m<k. \<not> hit w (cs ! m)"
proof (induction cs arbitrary: k)
  case Nil
  then show ?case by simp
next
  case (Cons c cs)
  show ?case
  proof (cases "hit w c")
    case True
    with Cons.prems show ?thesis by simp
  next
    case False
    with Cons.prems obtain k' where k': "first_hit w cs = Some k'" "k = Suc k'" by auto
    from Cons.IH [OF k'(1)] False show ?thesis
      unfolding k'(2) by (auto simp: nth_Cons' less_Suc_eq_0_disj)
  qed
qed

lemma first_hit_minimal:
  assumes "sorted (map num_of cs)" and "first_hit w cs = Some k" and "IsFloat w"
    and "c \<in> set cs" and "hit w c"
  shows "num_of (cs ! k) \<le> num_of c"
proof -
  from assms(4) obtain m where m: "m < length cs" "cs ! m = c" by (auto simp: in_set_conv_nth)
  have "\<not> m < k" using first_hit_first [OF assms(2)] m(2) assms(5) by blast
  then have "k \<le> m" by simp
  then have "map num_of cs ! k \<le> map num_of cs ! m"
    using assms(1) m(1) by (intro sorted_nth_mono) simp_all
  moreover have "k < length cs" using first_hit_bound [OF assms(2)] by simp
  ultimately show ?thesis using m by simp
qed

lemma sorted_buckets:
  assumes "sorted (map num_of s)"
  shows "sorted (map num_of (buckets s))"
proof (cases "3 \<le> length s")
  case False
  then show ?thesis using assms by (simp add: buckets_def)
next
  case True
  let ?n = "length s"
  have i: "?n div 3 - 1 \<le> 2 * ?n div 3 - 1" "2 * ?n div 3 - 1 \<le> ?n - 1" "?n - 1 < ?n"
    using True by simp_all
  have a: "map num_of s ! (?n div 3 - 1) \<le> map num_of s ! (2 * ?n div 3 - 1)"
    using assms i by (intro sorted_nth_mono) simp_all
  have b: "map num_of s ! (2 * ?n div 3 - 1) \<le> map num_of s ! (?n - 1)"
    using assms i by (intro sorted_nth_mono) simp_all
  have c: "map num_of s ! (?n div 3 - 1) \<le> map num_of s ! (?n - 1)"
    using a b by simp
  have l: "?n div 3 - 1 < ?n" "2 * ?n div 3 - 1 < ?n" using True by simp_all
  show ?thesis
    using True a b c l i(3) by (simp add: buckets_def Let_def)
qed

lemma candidates_sorted:
  assumes "list_all IsFloat (column td j)" and "column td j \<noteq> []"
  shows "sorted (map num_of (candidates_of td j))"
  using sorted_buckets [OF sorted_sort_key [of num_of "remdups (column td j)"]]
  by (simp add: candidates_of_def global_candidates_floats(1) [OF assms(2,1)])

text \<open>
  A row of the subset matches, among the questions of the local candidates of a column,
  first the one whose value is the global candidate of its cell.
\<close>

lemma local_first_hit:
  assumes "prepared self td" and "set ds \<subseteq> set td" and "r \<in> set ds"
    and "a < length (AttributeNames self)"
  shows "\<exists>k<length (elements (local_candidates td ds a)).
           first_hit (r ! a) (elements (local_candidates td ds a)) = Some k
         \<and> elements (local_candidates td ds a) ! k = snap td r ! a
         \<and> (IsFloat (r ! a) \<longrightarrow> list_all IsFloat (elements (local_candidates td ds a)))"
proof -
  let ?n = "length (AttributeNames self)"
  let ?w = "r ! a"
  let ?cs = "candidates_of td a"
  let ?col = "column (map (snap td) ds) a"
  let ?es = "elements (local_candidates td ds a)"
  from assms(1) have wf: "well_formed ?n td" by (simp add: prepared_def)
  have rt: "r \<in> set td" using assms(2,3) by auto
  have lr: "length r = ?n" using well_formed_length [OF wf rt] .
  from cell_hit [OF wf rt assms(4)] obtain k0 where
    k0: "k0 < length ?cs" "first_hit ?w ?cs = Some k0" "IsFloat (?cs ! k0) = IsFloat ?w"
        "IsFloat ?w \<longrightarrow> list_all IsFloat ?cs" by blast
  let ?v = "?cs ! k0"
  have v: "snap td r ! a = ?v" using assms(4) lr k0(2) by (simp add: snap_def snap_cell_def)
  have hv: "hit ?w ?v" using first_hit_bound [OF k0(2)] by simp
  have vcol: "?v \<in> set ?col" using assms(3) v by (force simp: column_def)
  have swf: "well_formed ?n (map (snap td) ds)" using wf assms(2) by (rule snapped_well_formed)
  have colsub: "set ?col \<subseteq> set ?cs"
  proof
    fix x assume "x \<in> set ?col"
    then obtain r' where r': "r' \<in> set ds" "x = snap td r' ! a" by (auto simp: column_def)
    then have rt': "r' \<in> set td" using assms(2) by auto
    have lr': "length r' = ?n" using well_formed_length [OF wf rt'] .
    from cell_hit [OF wf rt' assms(4)] obtain k' where
      "k' < length ?cs" "first_hit (r' ! a) ?cs = Some k'" by blast
    then show "x \<in> set ?cs" using r'(2) assms(4) lr' by (simp add: snap_def snap_cell_def)
  qed
  show ?thesis
  proof (cases "IsFloat ?w")
    case True
    then have fv: "IsFloat ?v" using k0(3) by simp
    have fl: "list_all IsFloat ?col"
      using well_formed_column [OF swf assms(4)] vcol fv by (auto simp: list_all_iff)
    have ne: "?col \<noteq> []" using vcol by auto
    have es: "?es = sort_key num_of (remdups ?col)"
      using fl ne by (cases ?col) (simp_all add: local_candidates_def gathered_def)
    have esf: "list_all IsFloat ?es" using fl by (simp add: es list_all_iff)
    have ves: "?v \<in> set ?es" using vcol by (simp add: es)
    from first_hit_Some [of ?es ?w] hv ves obtain k where
      k: "k < length ?es" "first_hit ?w ?es = Some k" "hit ?w (?es ! k)" by blast
    have srt: "sorted (map num_of ?es)" unfolding es by (rule sorted_sort_key)
    have tdcol: "list_all IsFloat (column td a)"
      using well_formed_column [OF wf assms(4)] rt True by (auto simp: list_all_iff column_def)
    have tdne: "column td a \<noteq> []" using rt by (auto simp: column_def)
    have gs: "sorted (map num_of ?cs)" using tdcol tdne by (rule candidates_sorted)
    have "?es ! k \<in> set ?es" using k(1) by (rule nth_mem)
    moreover have "set ?es = set ?col" by (simp add: es)
    ultimately have "?es ! k \<in> set ?cs" using colsub by blast
    then have le1: "num_of ?v \<le> num_of (?es ! k)"
      using first_hit_minimal [OF gs k0(2) True _ k(3)] by simp
    have le2: "num_of (?es ! k) \<le> num_of ?v"
      using first_hit_minimal [OF srt k(2) True ves hv] .
    have "IsFloat (?es ! k)" using esf k(1) by (simp add: list_all_length)
    then have "?es ! k = ?v" using fv le1 le2 by (intro num_of_inj) simp_all
    with k esf v show ?thesis by auto
  next
    case False
    then have sv: "\<not> IsFloat ?v" using k0(3) by simp
    have vw: "?v = ?w" using hv False by (simp add: hit_def)
    have st: "list_all (\<lambda>x. \<not> IsFloat x) ?col"
      using well_formed_column [OF swf assms(4)] vcol sv by (auto simp: list_all_iff)
    have ne: "?col \<noteq> []" using vcol by auto
    have es: "?es = insert_all [] ?col"
      using st ne by (cases ?col) (simp_all add: local_candidates_def gathered_def)
    have ves: "?v \<in> set ?es" using vcol by (simp add: es set_insert_all)
    from first_hit_Some [of ?es ?w] hv ves obtain k where
      k: "k < length ?es" "first_hit ?w ?es = Some k" "hit ?w (?es ! k)" by blast
    have "?es ! k = ?v" using k(3) False vw by (simp add: hit_def)
    with k False v show ?thesis by auto
  qed
qed

text \<open>Lines 363-365 for all the rows that go to one group.\<close>

fun add_rows :: "dataset option \<Rightarrow> dataset \<Rightarrow> dataset option" where
  "add_rows s [] = s"
| "add_rows s (r # rs) = Some ((case s of None \<Rightarrow> [] | Some g \<Rightarrow> g) @ r # rs)"

lemma split_rows_eq:
  "\<forall>r\<in>set ds. \<exists>k<length S. first_match qs r 0 = Inr (Some k) \<Longrightarrow>
   \<exists>G. split_rows qs S ds = Inr G \<and> length G = length S
      \<and> (\<forall>k<length S. G ! k = add_rows (S ! k) (filter (\<lambda>r. first_match qs r 0 = Inr (Some k)) ds))"
proof (induction ds arbitrary: S)
  case Nil
  then show ?case by simp
next
  case (Cons r ds)
  from Cons.prems obtain i where i: "i < length S" "first_match qs r 0 = Inr (Some i)" by auto
  let ?S = "S[i := Some ((case S ! i of None \<Rightarrow> [] | Some g \<Rightarrow> g) @ [r])]"
  have sr: "split_row qs S r = Inr ?S" using i(2) by (simp add: split_row_def)
  have "\<forall>r\<in>set ds. \<exists>k<length ?S. first_match qs r 0 = Inr (Some k)"
    using Cons.prems by simp
  from Cons.IH [OF this] obtain G where
    G: "split_rows qs ?S ds = Inr G" "length G = length ?S"
       "\<forall>k<length ?S. G ! k = add_rows (?S ! k) (filter (\<lambda>r. first_match qs r 0 = Inr (Some k)) ds)"
    by blast
  have "split_rows qs S (r # ds) = Inr G" using sr G(1) by simp
  moreover have "length G = length S" using G(2) by simp
  moreover have "\<forall>k<length S. G ! k =
      add_rows (S ! k) (filter (\<lambda>r. first_match qs r 0 = Inr (Some k)) (r # ds))"
  proof (intro allI impI)
    fix k assume k: "k < length S"
    let ?f = "filter (\<lambda>r. first_match qs r 0 = Inr (Some k)) ds"
    from G(3) k have g: "G ! k = add_rows (?S ! k) ?f" by simp
    show "G ! k = add_rows (S ! k) (filter (\<lambda>r. first_match qs r 0 = Inr (Some k)) (r # ds))"
    proof (cases "k = i")
      case True
      then show ?thesis using g i by (cases ?f) simp_all
    next
      case False
      then show ?thesis using g i by simp
    qed
  qed
  ultimately show ?case by blast
qed

lemma make_questions_local:
  assumes "a < n" and "\<forall>j<n. local_candidates td ds j \<noteq> NoneC"
  shows "make_questions (map (local_candidates td ds) [0..<n]) (int a)
           = Inr (questions_of a (elements (local_candidates td ds a)))"
proof -
  from assms have "local_candidates td ds a \<noteq> NoneC" by simp
  then have "py_iter (local_candidates td ds a) = Inr (elements (local_candidates td ds a))"
    by (cases "local_candidates td ds a") simp_all
  then show ?thesis
    using assms(1) by (simp add: make_questions_def py_index_nat questions_of_def)
qed

text \<open>
  One step of the build: the questions made from the local candidates of a column, and the
  groups into which lines 359-366 split the subset.
\<close>

lemma split_groups:
  assumes "prepared self td" and "ds \<noteq> []" and "set ds \<subseteq> set td"
    and "a < length (AttributeNames self)"
  shows "\<exists>qs G. make_questions (map (local_candidates td ds) [0..<length (AttributeNames self)])
                   (int a) = Inr qs
           \<and> length qs = length (elements (local_candidates td ds a))
           \<and> split_rows qs (replicate (length qs) None) ds = Inr G \<and> length G = length qs
           \<and> (\<forall>k<length G. \<exists>rows. G ! k = Some rows \<and> rows \<noteq> [] \<and> set rows \<subseteq> set ds
                  \<and> rows = filter (\<lambda>r. first_match qs r 0 = Inr (Some k)) ds
                  \<and> (2 \<le> length qs \<longrightarrow> length rows < length ds))"
proof -
  let ?n = "length (AttributeNames self)"
  let ?es = "elements (local_candidates td ds a)"
  let ?qs = "questions_of a ?es"
  let ?col = "column (map (snap td) ds) a"
  from assms(1) have wf: "well_formed ?n td" by (simp add: prepared_def)
  have shape: "\<exists>es. (local_candidates td ds j = ListC es \<or> local_candidates td ds j = SetC es)
           \<and> es \<noteq> [] \<and> distinct es" if "j < ?n" for j
    using local_candidates_shape [OF assms(1-3) that] .
  have nn: "\<forall>j<?n. local_candidates td ds j \<noteq> NoneC" using shape by fastforce
  have mq: "make_questions (map (local_candidates td ds) [0..<?n]) (int a) = Inr ?qs"
    using assms(4) nn by (rule make_questions_local)
  have lq: "length ?qs = length ?es" by (simp add: questions_of_def)
  from shape [OF assms(4)] have dist: "distinct ?es" by auto
  have fm: "\<exists>k<length ?es. first_match ?qs r 0 = Inr (Some k) \<and> ?es ! k = snap td r ! a"
    if "r \<in> set ds" for r
  proof -
    have rt: "r \<in> set td" using assms(3) that by auto
    have lr: "a < length r" using well_formed_length [OF wf rt] assms(4) by simp
    from local_first_hit [OF assms(1,3) that assms(4)] obtain k where
      k: "k < length ?es" "first_hit (r ! a) ?es = Some k" "?es ! k = snap td r ! a"
         "IsFloat (r ! a) \<longrightarrow> list_all IsFloat ?es" by blast
    have "first_match ?qs r 0 = Inr (Some k)"
      using first_match_questions [OF lr k(4), of 0] k(2) by simp
    with k show ?thesis by blast
  qed
  have "\<forall>r\<in>set ds. \<exists>k<length (replicate (length ?qs) (None :: dataset option)).
           first_match ?qs r 0 = Inr (Some k)"
    using fm lq by fastforce
  from split_rows_eq [OF this] obtain G where
    G: "split_rows ?qs (replicate (length ?qs) None) ds = Inr G" "length G = length ?qs"
       "\<forall>k<length ?qs. G ! k =
          add_rows None (filter (\<lambda>r. first_match ?qs r 0 = Inr (Some k)) ds)"
    by auto
  have occupied: "\<exists>r\<in>set ds. first_match ?qs r 0 = Inr (Some k)" if "k < length ?es" for k
  proof -
    have ek: "?es ! k \<in> set ?es" using that by simp
    have "set ?es = set ?col"
    proof -
      from shape [OF assms(4)] have "local_candidates td ds a \<noteq> NoneC" by auto
      then show ?thesis
        by (cases "gathered ?col")
           (auto simp: local_candidates_def gathered_def set_insert_all split: if_splits)
    qed
    with ek obtain r where r: "r \<in> set ds" "snap td r ! a = ?es ! k"
      by (auto simp: column_def)
    from fm [OF r(1)] obtain k' where
      k': "k' < length ?es" "first_match ?qs r 0 = Inr (Some k')" "?es ! k' = snap td r ! a"
      by blast
    have "k' = k" using dist k'(1,3) r(2) that by (simp add: nth_eq_iff_index_eq)
    with k'(2) r(1) show ?thesis by blast
  qed
  have groups: "\<exists>rows. G ! k = Some rows \<and> rows \<noteq> [] \<and> set rows \<subseteq> set ds
                  \<and> rows = filter (\<lambda>r. first_match ?qs r 0 = Inr (Some k)) ds
                  \<and> (2 \<le> length ?qs \<longrightarrow> length rows < length ds)" if "k < length G" for k
  proof -
    let ?f = "filter (\<lambda>r. first_match ?qs r 0 = Inr (Some k)) ds"
    have k: "k < length ?es" using that G(2) lq by simp
    from occupied [OF k] have fne: "?f \<noteq> []" by (auto simp: filter_empty_conv)
    have gk: "G ! k = Some ?f" using G(3) k lq fne by (cases ?f) simp_all
    have less: "length ?f < length ds" if two: "2 \<le> length ?qs"
    proof -
      from two lq k obtain k2 where k2: "k2 < length ?es" "k2 \<noteq> k"
        by (metis Suc_1 Suc_le_lessD less_one not_less_eq zero_less_Suc
              less_nat_zero_code nat_neq_iff)
      from occupied [OF k2(1)] obtain r where
        r: "r \<in> set ds" "first_match ?qs r 0 = Inr (Some k2)" by blast
      then have "\<not> first_match ?qs r 0 = Inr (Some k)" using k2(2) by simp
      with r(1) show ?thesis by (intro length_filter_less)
    qed
    show ?thesis using gk fne less by (intro exI [of _ ?f]) auto
  qed
  from mq lq G(1,2) groups show ?thesis by blast
qed

section \<open>The build never meets an empty group\<close>

text \<open>The number of rows that a leaf's counts stand for.\<close>

definition rows_counted :: "counts \<Rightarrow> nat" where
  "rows_counted c = sum_list (map snd c)"

text \<open>
  A tree is populated when each of its leaves counted at least one row and each of its
  decision nodes has one branch per question.
\<close>

fun populated :: "node \<Rightarrow> bool" where
  "populated (LeafNode c d) = (0 < rows_counted c)"
| "populated (DecisionNode qs bs d) = (length bs = length qs \<and> (\<forall>b\<in>set bs. populated b))"

lemma rows_counted_setdefault: "rows_counted (setdefault c k 0) = rows_counted c"
  by (induction c) (auto simp: rows_counted_def)

lemma setdefault_key: "\<exists>n. (k, n) \<in> set (setdefault c k d)"
  by (induction c) auto

lemma rows_counted_increment:
  "(k, n) \<in> set c \<Longrightarrow> rows_counted (increment c k) = rows_counted c + 1"
  by (induction c) (auto simp: rows_counted_def)

lemma CalculateCounts_loop_total:
  "\<forall>r\<in>set ds. r \<noteq> [] \<Longrightarrow>
   \<exists>c'. CalculateCounts_loop c ds = Inr c' \<and> rows_counted c' = rows_counted c + length ds"
proof (induction ds arbitrary: c)
  case Nil
  then show ?case by simp
next
  case (Cons r ds)
  then have r: "py_index r (int (length r) - 1) = Inr (last r)" by (simp add: py_index_last)
  let ?c = "increment (setdefault c (last r) 0) (last r)"
  obtain n where "(last r, n) \<in> set (setdefault c (last r) 0)"
    using setdefault_key by blast
  then have "rows_counted ?c = rows_counted c + 1"
    by (simp add: rows_counted_increment rows_counted_setdefault)
  moreover from Cons have "\<exists>c'. CalculateCounts_loop ?c ds = Inr c'
      \<and> rows_counted c' = rows_counted ?c + length ds" by simp
  ultimately show ?case using r by auto
qed

lemma CalculateCounts_total:
  "\<forall>r\<in>set ds. r \<noteq> [] \<Longrightarrow> \<exists>c. CalculateCounts ds = Inr c \<and> rows_counted c = length ds"
  using CalculateCounts_loop_total [of ds "[]"] by (simp add: CalculateCounts_def rows_counted_def)

text \<open>
  \<open>CanSplit\<close> on the local candidates of a non-empty subset of the training data: it
  returns, and it answers \<open>True\<close> only when some attribute before the label has more than
  one local candidate.
\<close>

lemma CanSplit_prepared:
  assumes "prepared self td" and "ds \<noteq> []" and "set ds \<subseteq> set td"
  shows "\<exists>can. CanSplit ds (map (local_candidates td ds) [0..<length (AttributeNames self)])
                  (GlobalUniqueValues self) = Inr can
           \<and> (can \<longrightarrow> (\<exists>a<length (AttributeNames self) - 1.
                          1 < length (elements (local_candidates td ds a))))"
proof -
  let ?n = "length (AttributeNames self)"
  let ?uv = "map (local_candidates td ds) [0..<?n]"
  let ?guv = "GlobalUniqueValues self"
  from assms(1) have n: "0 < ?n" and lg: "length ?guv = ?n" by (simp_all add: prepared_def)
  have nn: "local_candidates td ds j \<noteq> NoneC" if "j < ?n" for j
    using local_candidates_shape [OF assms that] by auto
  have all: "\<forall>c\<in>set ?uv. c \<noteq> NoneC" using nn by auto
  have ne: "?uv \<noteq> []" using n by simp
  have len: "length ?uv - 1 \<le> length ?guv" using lg by simp
  have eq: "CanSplit ds ?uv ?guv =
           Inr (py_len (last ?uv) \<noteq> Inr 1
                \<and> (\<exists>a<length ?uv - 1. \<exists>m>1. py_len (?uv ! a) = Inr m))"
    using ne all len by (rule CanSplit_by_candidate_counts)
  have "\<exists>a<?n - 1. 1 < length (elements (local_candidates td ds a))"
    if "\<exists>a<length ?uv - 1. \<exists>m>1. py_len (?uv ! a) = Inr m"
  proof -
    from that obtain a m where a: "a < ?n - 1" and m: "1 < m" "py_len (?uv ! a) = Inr m"
      by auto
    from a have an: "a < ?n" by simp
    then have "?uv ! a = local_candidates td ds a" by simp
    with nn [OF an] m have "1 < length (elements (local_candidates td ds a))"
      by (simp add: py_len_elements)
    with a show ?thesis by blast
  qed
  with eq show ?thesis by blast
qed

text \<open>
  One build step (lines 335-366) on a non-empty subset of the training data: the step
  either stops at a leaf or splits the subset into at least two groups, one per question,
  and the group of question \<open>k\<close> holds the rows whose first matching question is \<open>k\<close>, at
  least one and fewer than the subset has.
\<close>

lemma build_step:
  assumes "prepared self td" and "ds \<noteq> []" and "set ds \<subseteq> set td" and "approximates gini"
  shows "\<exists>uv can. GetChildPossibleValues self ds = Inr uv
     \<and> CanSplit ds uv (GlobalUniqueValues self) = Inr can
     \<and> (can \<longrightarrow> (\<exists>g i qs G. FindBestSplit gini ds uv = Inr (g, i)
            \<and> make_questions uv i = Inr qs \<and> 2 \<le> length qs
            \<and> split_rows qs (replicate (length qs) None) ds = Inr G \<and> length G = length qs
            \<and> (\<forall>k<length qs. \<exists>rows. G ! k = Some rows \<and> rows \<noteq> []
                   \<and> rows = filter (\<lambda>r. first_match qs r 0 = Inr (Some k)) ds
                   \<and> length rows < length ds)))"
proof -
  let ?n = "length (AttributeNames self)"
  let ?uv = "map (local_candidates td ds) [0..<?n]"
  let ?v = "computed gini ds ?uv"
  from assms(1) have wf: "well_formed ?n td" by (simp add: prepared_def)
  have gc: "GetChildPossibleValues self ds = Inr ?uv"
    using assms(1,3) by (rule GetChildPossibleValues_prepared)
  from CanSplit_prepared [OF assms(1-3)] obtain can where
    can: "CanSplit ds ?uv (GlobalUniqueValues self) = Inr can"
         "can \<longrightarrow> (\<exists>a<?n - 1. 1 < length (elements (local_candidates td ds a)))"
    by blast
  have split: "\<exists>g i qs G. FindBestSplit gini ds ?uv = Inr (g, i)
            \<and> make_questions ?uv i = Inr qs \<and> 2 \<le> length qs
            \<and> split_rows qs (replicate (length qs) None) ds = Inr G \<and> length G = length qs
            \<and> (\<forall>k<length qs. \<exists>rows. G ! k = Some rows \<and> rows \<noteq> []
                   \<and> rows = filter (\<lambda>r. first_match qs r 0 = Inr (Some k)) ds
                   \<and> length rows < length ds)" if can
  proof -
    from can(2) that obtain a0 where
      a0: "a0 < ?n - 1" "1 < length (elements (local_candidates td ds a0))" by blast
    have rows: "\<forall>r\<in>set ds. length r = ?n"
      using well_formed_length [OF wf] assms(3) by blast
    have pre: "\<forall>a<?n - 1. a < length ?uv \<and>
           (\<exists>es. (?uv ! a = ListC es \<or> ?uv ! a = SetC es) \<and> es \<noteq> [] \<and> distinct es)"
    proof (intro allI impI)
      fix a assume "a < ?n - 1"
      then have a: "a < ?n" by simp
      from local_candidates_shape [OF assms(1-3) a] a
      show "a < length ?uv \<and>
           (\<exists>es. (?uv ! a = ListC es \<or> ?uv ! a = SetC es) \<and> es \<noteq> [] \<and> distinct es)"
        by simp
    qed
    have val: "\<forall>a<?n - 1. 1 < length (elements (?uv ! a)) \<longrightarrow>
        gini ds a ?uv = Inr (?v a) \<and> ?v a < 2"
    proof (intro allI impI)
      fix a assume "a < ?n - 1"
      then have a: "a < ?n" by simp
      show "gini ds a ?uv = Inr (?v a) \<and> ?v a < 2"
        by (rule computed_below_sentinel [OF assms(1-3) a assms(4)])
    qed
    have ex: "\<exists>a<?n - 1. 1 < length (elements (?uv ! a))"
      using a0 by (intro exI [of _ a0]) simp
    from FindBestSplit_general [where gini = gini and v = ?v, OF assms(2) rows pre val]
    obtain g i where
      e: "FindBestSplit gini ds ?uv = Inr (g, i)"
      and some: "(\<exists>a<?n - 1. 1 < length (elements (?uv ! a))) \<longrightarrow>
          0 \<le> i \<and> nat i < ?n - 1 \<and> 1 < length (elements (?uv ! nat i))"
      by blast
    from some ex have i: "0 \<le> i" "nat i < ?n - 1" "1 < length (elements (?uv ! nat i))"
      by blast+
    from i(2) have ia: "nat i < ?n" by simp
    have ii: "int (nat i) = i" using i(1) by simp
    from split_groups [OF assms(1-3) ia] obtain qs G where
      q: "make_questions ?uv (int (nat i)) = Inr qs"
         "length qs = length (elements (local_candidates td ds (nat i)))"
         "split_rows qs (replicate (length qs) None) ds = Inr G" "length G = length qs"
         "\<forall>k<length G. \<exists>rows. G ! k = Some rows \<and> rows \<noteq> [] \<and> set rows \<subseteq> set ds
                  \<and> rows = filter (\<lambda>r. first_match qs r 0 = Inr (Some k)) ds
                  \<and> (2 \<le> length qs \<longrightarrow> length rows < length ds)"
      by blast
    have two: "2 \<le> length qs" using q(2) i(3) ia by simp
    have "\<forall>k<length qs. \<exists>rows. G ! k = Some rows \<and> rows \<noteq> []
                  \<and> rows = filter (\<lambda>r. first_match qs r 0 = Inr (Some k)) ds
                  \<and> length rows < length ds"
      using q(4,5) two by auto
    with e q(1,3,4) two ii show ?thesis
      by (intro exI [of _ g] exI [of _ i] exI [of _ qs] exI [of _ G]) simp
  qed
  from gc can(1) split show ?thesis by blast
qed

lemma prepared_Depth: "prepared (self\<lparr>Depth := d\<rparr>) td = prepared self td"
  by (simp add: prepared_def)

lemma CreateBranches_total:
  assumes H: "\<And>self ds d. prepared self td \<Longrightarrow> ds \<noteq> [] \<Longrightarrow> set ds \<subseteq> set td \<Longrightarrow>
      length ds \<le> fuel \<Longrightarrow>
      \<exists>t d'. CreateTreeRecursive gini fuel self (Some ds) d = Some (Inr (t, self\<lparr>Depth := d'\<rparr>))
            \<and> populated t"
  shows "prepared self td \<Longrightarrow>
    \<forall>g\<in>set G. \<exists>rows. g = Some rows \<and> rows \<noteq> [] \<and> set rows \<subseteq> set td \<and> length rows \<le> fuel \<Longrightarrow>
    \<exists>bs d'. CreateBranches gini fuel self G d = Some (Inr (bs, self\<lparr>Depth := d'\<rparr>))
          \<and> length bs = length G \<and> (\<forall>b\<in>set bs. populated b)"
proof (induction G arbitrary: self)
  case Nil
  have "self = self\<lparr>Depth := Depth self\<rparr>" by simp
  then have "CreateBranches gini fuel self [] d = Some (Inr ([], self\<lparr>Depth := Depth self\<rparr>))"
    by simp
  then show ?case by (intro exI [of _ "[]"] exI [of _ "Depth self"]) simp
next
  case (Cons g G)
  from Cons.prems(2) obtain rows where
    rows: "g = Some rows" "rows \<noteq> []" "set rows \<subseteq> set td" "length rows \<le> fuel" by auto
  from H [OF Cons.prems(1) rows(2-4), of d] obtain t d1 where
    t: "CreateTreeRecursive gini fuel self (Some rows) d = Some (Inr (t, self\<lparr>Depth := d1\<rparr>))"
       "populated t" by blast
  have p1: "prepared (self\<lparr>Depth := d1\<rparr>) td" using Cons.prems(1) by (simp add: prepared_Depth)
  have "\<forall>g\<in>set G. \<exists>rows. g = Some rows \<and> rows \<noteq> [] \<and> set rows \<subseteq> set td \<and> length rows \<le> fuel"
    using Cons.prems(2) by simp
  from Cons.IH [OF p1 this] obtain bs d2 where
    bs: "CreateBranches gini fuel (self\<lparr>Depth := d1\<rparr>) G d
           = Some (Inr (bs, self\<lparr>Depth := d1\<rparr>\<lparr>Depth := d2\<rparr>))"
        "length bs = length G" "\<forall>b\<in>set bs. populated b" by blast
  have "CreateBranches gini fuel self (g # G) d = Some (Inr (t # bs, self\<lparr>Depth := d2\<rparr>))"
    using t(1) bs(1) rows(1) by simp
  moreover have "length (t # bs) = length (g # G)" using bs(2) by simp
  moreover have "\<forall>b\<in>set (t # bs). populated b" using t(2) bs(3) by simp
  ultimately show ?case by blast
qed

text \<open>
  The build on a non-empty subset of the training data returns: with one unit of fuel per
  row of the subset \<open>CreateTreeRecursive\<close> gives a populated tree, and the object comes
  back with at most its \<^verbatim>\<open>Depth\<close> changed.
\<close>

lemma CreateTreeRecursive_total:
  "prepared self td \<Longrightarrow> ds \<noteq> [] \<Longrightarrow> set ds \<subseteq> set td \<Longrightarrow> approximates gini \<Longrightarrow>
   length ds \<le> fuel \<Longrightarrow>
   \<exists>t d'. CreateTreeRecursive gini fuel self (Some ds) d = Some (Inr (t, self\<lparr>Depth := d'\<rparr>))
         \<and> populated t"
proof (induction fuel arbitrary: self ds d)
  case 0
  then show ?case by simp
next
  case (Suc fuel)
  let ?n = "length (AttributeNames self)"
  from Suc.prems(1) have wf: "well_formed ?n td" and n: "0 < ?n" by (simp_all add: prepared_def)
  from build_step [OF Suc.prems(1-4)] obtain uv can where
    uv: "GetChildPossibleValues self ds = Inr uv"
    and can: "CanSplit ds uv (GlobalUniqueValues self) = Inr can"
    and split: "can \<longrightarrow> (\<exists>g i qs G. FindBestSplit gini ds uv = Inr (g, i)
            \<and> make_questions uv i = Inr qs \<and> 2 \<le> length qs
            \<and> split_rows qs (replicate (length qs) None) ds = Inr G \<and> length G = length qs
            \<and> (\<forall>k<length qs. \<exists>rows. G ! k = Some rows \<and> rows \<noteq> []
                   \<and> rows = filter (\<lambda>r. first_match qs r 0 = Inr (Some k)) ds
                   \<and> length rows < length ds))"
    by blast
  show ?case
  proof (cases can)
    case False
    have "\<forall>r\<in>set ds. r \<noteq> []"
      using well_formed_length [OF wf] Suc.prems(3) n by fastforce
    from CalculateCounts_total [OF this] obtain c where
      c: "CalculateCounts ds = Inr c" "rows_counted c = length ds" by blast
    have "self = self\<lparr>Depth := Depth self\<rparr>" by simp
    then have "CreateTreeRecursive gini (Suc fuel) self (Some ds) d
        = Some (Inr (LeafNode c d, self\<lparr>Depth := Depth self\<rparr>))"
      using uv can False c(1) by simp
    moreover have "populated (LeafNode c d)" using c(2) Suc.prems(2) by simp
    ultimately show ?thesis by blast
  next
    case True
    with split obtain g i qs G where
      s: "FindBestSplit gini ds uv = Inr (g, i)" "make_questions uv i = Inr qs"
         "split_rows qs (replicate (length qs) None) ds = Inr G" "length G = length qs"
         "\<forall>k<length qs. \<exists>rows. G ! k = Some rows \<and> rows \<noteq> []
                   \<and> rows = filter (\<lambda>r. first_match qs r 0 = Inr (Some k)) ds
                   \<and> length rows < length ds"
      by blast
    let ?self = "if d > Depth self then self\<lparr>Depth := d\<rparr> else self"
    have ps: "prepared ?self td" using Suc.prems(1) by (simp add: prepared_Depth)
    have sd: "?self\<lparr>Depth := d'\<rparr> = self\<lparr>Depth := d'\<rparr>" for d' by simp
    have groups: "\<forall>grp\<in>set G. \<exists>rows. grp = Some rows \<and> rows \<noteq> [] \<and> set rows \<subseteq> set td
        \<and> length rows \<le> fuel"
    proof
      fix grp assume "grp \<in> set G"
      then obtain k where k: "k < length G" "G ! k = grp" by (auto simp: in_set_conv_nth)
      with s(4,5) obtain rows where
        r: "grp = Some rows" "rows \<noteq> []"
           "rows = filter (\<lambda>r. first_match qs r 0 = Inr (Some k)) ds" "length rows < length ds"
        by auto
      from r(3) have "set rows \<subseteq> set ds" by auto
      with r show "\<exists>rows. grp = Some rows \<and> rows \<noteq> [] \<and> set rows \<subseteq> set td \<and> length rows \<le> fuel"
        using Suc.prems(3,5) by auto
    qed
    have H: "\<And>self ds d. prepared self td \<Longrightarrow> ds \<noteq> [] \<Longrightarrow> set ds \<subseteq> set td \<Longrightarrow>
      length ds \<le> fuel \<Longrightarrow>
      \<exists>t d'. CreateTreeRecursive gini fuel self (Some ds) d = Some (Inr (t, self\<lparr>Depth := d'\<rparr>))
            \<and> populated t"
      using Suc.IH Suc.prems(4) by blast
    from CreateBranches_total [of td fuel gini ?self G "d + 1", OF H ps groups]
    obtain bs d' where
      bs: "CreateBranches gini fuel ?self G (d + 1) = Some (Inr (bs, ?self\<lparr>Depth := d'\<rparr>))"
          "length bs = length G" "\<forall>b\<in>set bs. populated b"
      by blast
    have "CreateTreeRecursive gini (Suc fuel) self (Some ds) d
        = Some (Inr (DecisionNode qs bs d, self\<lparr>Depth := d'\<rparr>))"
      using uv can True s(1-3) bs(1) unfolding sd by simp
    moreover have "populated (DecisionNode qs bs d)" using bs(2,3) s(4) by simp
    ultimately show ?thesis by blast
  qed
qed

text \<open>
  C10. On a prepared object, which is what \<open>CreateTree\<close> hands over for training data
  whose rows have one length and one kind of value per column, take any non-empty subset
  \<open>ds\<close> of the training data; the whole training data is the subset of the first call, and
  every later call is made on a group of an earlier one. The build step on \<open>ds\<close> computes
  the local candidates and the answer of \<open>CanSplit\<close>. When it splits, the chosen attribute
  gives at least two questions, and \<^verbatim>\<open>splitSets\<close> has one group per question: the group of
  question \<open>k\<close> is not \<^verbatim>\<open>None\<close>, it holds exactly the rows of \<open>ds\<close> whose first matching
  question is \<open>k\<close>, at least one of them and fewer than \<open>ds\<close> has. So every group passed
  on in line 374 is again a non-empty subset of the training data. With one unit of fuel
  per row of \<open>ds\<close> the build returns a tree, no call having raised, in which every leaf
  counted at least one row; the object comes back with at most \<^verbatim>\<open>Depth\<close> changed.
\<close>

theorem CreateTreeRecursive_groups_populated:
  assumes "prepared self td" and "ds \<noteq> []" and "set ds \<subseteq> set td" and "approximates gini"
    and "length ds \<le> fuel"
  shows "(\<exists>uv can. GetChildPossibleValues self ds = Inr uv
            \<and> CanSplit ds uv (GlobalUniqueValues self) = Inr can
            \<and> (can \<longrightarrow> (\<exists>g i qs G. FindBestSplit gini ds uv = Inr (g, i)
                  \<and> make_questions uv i = Inr qs \<and> 2 \<le> length qs
                  \<and> split_rows qs (replicate (length qs) None) ds = Inr G
                  \<and> length G = length qs
                  \<and> (\<forall>k<length qs. \<exists>rows. G ! k = Some rows \<and> rows \<noteq> []
                         \<and> rows = filter (\<lambda>r. first_match qs r 0 = Inr (Some k)) ds
                         \<and> length rows < length ds))))
       \<and> (\<exists>t d'. CreateTreeRecursive gini fuel self (Some ds) aDepth
                     = Some (Inr (t, self\<lparr>Depth := d'\<rparr>))
                 \<and> populated t)"
proof (rule conjI)
  show "\<exists>uv can. GetChildPossibleValues self ds = Inr uv
            \<and> CanSplit ds uv (GlobalUniqueValues self) = Inr can
            \<and> (can \<longrightarrow> (\<exists>g i qs G. FindBestSplit gini ds uv = Inr (g, i)
                  \<and> make_questions uv i = Inr qs \<and> 2 \<le> length qs
                  \<and> split_rows qs (replicate (length qs) None) ds = Inr G
                  \<and> length G = length qs
                  \<and> (\<forall>k<length qs. \<exists>rows. G ! k = Some rows \<and> rows \<noteq> []
                         \<and> rows = filter (\<lambda>r. first_match qs r 0 = Inr (Some k)) ds
                         \<and> length rows < length ds)))"
    by (rule build_step [OF assms(1-4)])
  show "\<exists>t d'. CreateTreeRecursive gini fuel self (Some ds) aDepth
                     = Some (Inr (t, self\<lparr>Depth := d'\<rparr>))
                 \<and> populated t"
    by (rule CreateTreeRecursive_total [OF assms])
qed

theorem CreateTreeRecursive_groups_populated_witness:
  "\<exists>s t. CreateTree GiniIndex 5
          \<lparr>TrainingData = [[Str ''x'', Num 1, Str ''Yes''], [Str ''x'', Num 2, Str ''Yes''],
                           [Str ''x'', Num 3, Str ''Yes''], [Str ''y'', Num 2, Str ''Yes''],
                           [Str ''y'', Num 3, Str ''No'']],
           Root = None, AttributeNames = [''A'', ''B'', ''Label''], Depth = 0,
           GlobalUniqueValues = [], GlobalQuestions = []\<rparr> = Some (Inr s)
      \<and> Root s = Some t \<and> populated t"
proof -
  let ?td = "[[Str ''x'', Num 1, Str ''Yes''], [Str ''x'', Num 2, Str ''Yes''],
              [Str ''x'', Num 3, Str ''Yes''], [Str ''y'', Num 2, Str ''Yes''],
              [Str ''y'', Num 3, Str ''No'']]"
  let ?self = "\<lparr>TrainingData = ?td, Root = None, AttributeNames = [''A'', ''B'', ''Label''],
           Depth = 0, GlobalUniqueValues = [], GlobalQuestions = []\<rparr>"
  have "\<exists>self1. prepared self1 (TrainingData ?self) \<and> TrainingData self1 = TrainingData ?self
           \<and> GetPossibleValues ?self (TrainingData ?self) = Inr (GlobalUniqueValues self1)
           \<and> GetQuestions (?self\<lparr>GlobalUniqueValues := GlobalUniqueValues self1\<rparr>) = Inr self1
           \<and> CreateTree GiniIndex 5 ?self =
               (case CreateTreeRecursive GiniIndex 5 self1 (Some (TrainingData ?self)) 0 of
                  None \<Rightarrow> None
                | Some (Inl e) \<Rightarrow> Some (Inl e)
                | Some (Inr (t, self2)) \<Rightarrow> Some (Inr (self2\<lparr>Root := Some t\<rparr>)))"
    by (rule CreateTree_prepared) (simp_all add: well_formed_def)
  then obtain self1 where p: "prepared self1 ?td"
    and c: "CreateTree GiniIndex 5 ?self =
               (case CreateTreeRecursive GiniIndex 5 self1 (Some ?td) 0 of
                  None \<Rightarrow> None
                | Some (Inl e) \<Rightarrow> Some (Inl e)
                | Some (Inr (t, self2)) \<Rightarrow> Some (Inr (self2\<lparr>Root := Some t\<rparr>)))"
    by auto
  have ne: "?td \<noteq> []" by simp
  have sub: "set ?td \<subseteq> set ?td" by simp
  have len: "length ?td \<le> 5" by simp
  from CreateTreeRecursive_groups_populated [OF p ne sub approximates_GiniIndex len, of 0]
  obtain t d' where
    t: "CreateTreeRecursive GiniIndex 5 self1 (Some ?td) 0 = Some (Inr (t, self1\<lparr>Depth := d'\<rparr>))"
       "populated t"
    by blast
  from c t(1) have "CreateTree GiniIndex 5 ?self = Some (Inr (self1\<lparr>Depth := d', Root := Some t\<rparr>))"
    by simp
  with t(2) show ?thesis
    by (intro exI [of _ "self1\<lparr>Depth := d', Root := Some t\<rparr>"] exI [of _ t]) simp
qed

end
